theory Spec2Isabelle
  imports Main
begin

section \<open>Values, function identities and the bus state\<close>

text \<open>
  The model follows the later revision of the module (class \<open>EventBus\<close> in
  \<open>src/scripts/core/database.js\<close>, lines 282 to 533).

  A function value is known by its identity: either a listener supplied by the
  application (\<open>Handler k\<close>) or the k-th \<open>wrapper\<close> closure created by \<open>once\<close>.
\<close>

datatype fn = Handler nat | Wrapper nat

datatype ('a, 'e) settle = Fulfilled 'a | Rejected 'e | Pending

text \<open>
  The JavaScript values the bus can tell apart. \<open>TypeError m\<close> and \<open>Error m\<close> are the
  error objects the module throws; \<open>Promise st\<close> is a promise together with the way it
  settles (\<open>Pending\<close>: it never settles).
\<close>

datatype jsval =
    Undefined
  | Null
  | Bool bool
  | Num int
  | Str string
  | Fn fn
  | Obj "(string \<times> jsval) list"
  | TypeError string
  | Error string
  | Promise "(jsval, jsval) settle"

text \<open>One closure created by \<open>once\<close>: its captured variables.\<close>

record wrapper =
  wEvent :: string
  wHandler :: fn
  completed :: bool

datatype phase = BOOTSTRAP | RUNTIME

text \<open>The lines the module writes to the console, by the call that writes them.\<close>

datatype log =
    ListenerLeak nat string
  | HandlerFailure string jsval
  | ImportFailed string jsval
  | PhaseFailures nat phase
  | WorldLoadFailure jsval
  | WatchdogBlocked jsval
  | ShutdownEmitFailure jsval

text \<open>
  \<open>Invoke c f args\<close> records that the caller \<open>c\<close> applied the function \<open>f\<close> to \<open>args\<close>;
  \<open>Complete c f r\<close> records how that application ended. The caller is the n-th
  call of \<open>emit\<close> or \<open>emitAsync\<close>, or a wrapper of \<open>once\<close>.
\<close>

datatype caller = FromEmit nat | FromWrapper nat

datatype event =
    Invoke caller fn "jsval list"
  | Complete caller fn "jsval + jsval"

text \<open>
  The static fields of the class. \<open>listenersMap\<close> is a \<open>Map\<close> in insertion order from
  an event name to a reference to a \<open>Set\<close> object; the \<open>Set\<close> objects live in
  \<open>setStore\<close>, in insertion order of their members, so that a reference held by a
  running \<open>emit\<close> sees what later calls do to the object. The fields after
  \<open>runtimeCompleted\<close> are not fields of the class: the closures created so far, the
  host's subscriptions, the console, the calls of the load capability \<open>import()\<close> (\<open>importCalls\<close>), and
  the record of listener applications.
\<close>

record bus =
  listenersMap :: "(string \<times> nat) list"
  setStore :: "nat \<Rightarrow> fn list"
  nextSet :: nat
  listenerThreshold :: nat
  initialized :: bool
  worldReady :: bool
  moduleQueue :: "(nat \<times> string \<times> phase) list"
  nextEntry :: nat
  importedModules :: "string list"
  bootstrapCompleted :: bool
  runtimeCompleted :: bool
  wrappers :: "nat \<Rightarrow> wrapper option"
  nextWrapper :: nat
  watchdogSubscribed :: bool
  worldLoadSubscribed :: bool
  attached :: "string list"
  console :: "log list"
  importCalls :: "string list"
  trace :: "event list"
  emitSeq :: nat

definition initial :: bus where
  "initial = \<lparr> listenersMap = [], setStore = (\<lambda>_. []), nextSet = 0,
     listenerThreshold = 1000, initialized = False, worldReady = False,
     moduleQueue = [], nextEntry = 0, importedModules = [],
     bootstrapCompleted = False, runtimeCompleted = False,
     wrappers = (\<lambda>_. None), nextWrapper = 0,
     watchdogSubscribed = False, worldLoadSubscribed = False, attached = [],
     console = [], importCalls = [], trace = [], emitSeq = 0 \<rparr>"

section \<open>Map and Set of the language\<close>

text \<open>\<open>Map.prototype.get\<close>, \<open>set\<close> (an existing key keeps its place) and \<open>delete\<close>.\<close>

fun map_get :: "('k \<times> 'v) list \<Rightarrow> 'k \<Rightarrow> 'v option" where
  "map_get [] k = None"
| "map_get ((k', v) # m) k = (if k' = k then Some v else map_get m k)"

fun map_set :: "('k \<times> 'v) list \<Rightarrow> 'k \<Rightarrow> 'v \<Rightarrow> ('k \<times> 'v) list" where
  "map_set [] k v = [(k, v)]"
| "map_set ((k', v') # m) k v = (if k' = k then (k, v) # m else (k', v') # map_set m k v)"

fun map_delete :: "('k \<times> 'v) list \<Rightarrow> 'k \<Rightarrow> ('k \<times> 'v) list" where
  "map_delete [] k = []"
| "map_delete ((k', v) # m) k = (if k' = k then m else (k', v) # map_delete m k)"

text \<open>
  \<open>Set.prototype.add\<close> appends a new member and leaves a present one where it is;
  \<open>delete\<close> removes the member.
\<close>

definition set_add :: "'a \<Rightarrow> 'a list \<Rightarrow> 'a list" where
  "set_add x xs = (if x \<in> set xs then xs else xs @ [x])"

definition set_delete :: "'a \<Rightarrow> 'a list \<Rightarrow> 'a list" where
  "set_delete x xs = filter (\<lambda>y. y \<noteq> x) xs"

section \<open>The dispatcher: registration\<close>

definition validateEventName :: "jsval \<Rightarrow> jsval + string" where
  "validateEventName eventName =
     (case eventName of Str e \<Rightarrow> Inr e | _ \<Rightarrow> Inl (TypeError ''Event name must be a string''))"

definition validateHandler :: "jsval \<Rightarrow> jsval + fn" where
  "validateHandler handler =
     (case handler of Fn f \<Rightarrow> Inr f | _ \<Rightarrow> Inl (TypeError ''Handler must be a function''))"

text \<open>
  \<open>off(eventName = null, handler)\<close>: the default makes an omitted (undefined) event
  name \<open>null\<close>. It returns nothing; \<open>Inl\<close> is the thrown value.
\<close>

definition off :: "jsval \<Rightarrow> jsval \<Rightarrow> bus \<Rightarrow> bus \<times> (jsval + unit)" where
  "off eventName handler s =
     (if eventName = Undefined \<or> eventName = Null then (s\<lparr>listenersMap := []\<rparr>, Inr ())
      else case validateEventName eventName of
        Inl err \<Rightarrow> (s, Inl err)
      | Inr e \<Rightarrow>
         (case map_get (listenersMap s) e of
            None \<Rightarrow> (s, Inr ())
          | Some a \<Rightarrow>
             if handler = Undefined
             then (s\<lparr>listenersMap := map_delete (listenersMap s) e\<rparr>, Inr ())
             else case validateHandler handler of
               Inl err \<Rightarrow> (s, Inl err)
             | Inr f \<Rightarrow>
                 let s1 = s\<lparr>setStore := (setStore s)(a := set_delete f (setStore s a))\<rparr>
                 in if length (setStore s1 a) = 0
                    then (s1\<lparr>listenersMap := map_delete (listenersMap s1) e\<rparr>, Inr ())
                    else (s1, Inr ())))"

text \<open>
  \<open>on\<close> returns the capability \<open>() => this.off(eventName, handler)\<close>, given here by
  the two captured variables.
\<close>

definition on :: "jsval \<Rightarrow> jsval \<Rightarrow> bus \<Rightarrow> bus \<times> (jsval + string \<times> fn)" where
  "on eventName handler s =
     (case validateEventName eventName of
        Inl err \<Rightarrow> (s, Inl err)
      | Inr e \<Rightarrow>
         (case validateHandler handler of
            Inl err \<Rightarrow> (s, Inl err)
          | Inr f \<Rightarrow>
             let (a, s1) = (case map_get (listenersMap s) e of
                              Some a \<Rightarrow> (a, s)
                            | None \<Rightarrow> (nextSet s,
                                s\<lparr>setStore := (setStore s)(nextSet s := []),
                                  nextSet := Suc (nextSet s)\<rparr>));
                 s2 = s1\<lparr>setStore := (setStore s1)(a := set_add f (setStore s1 a))\<rparr>;
                 s3 = s2\<lparr>listenersMap := map_set (listenersMap s2) e a\<rparr>;
                 s4 = (if length (setStore s3 a) > listenerThreshold s3
                       then s3\<lparr>console := console s3 @ [ListenerLeak (length (setStore s3 a)) e]\<rparr>
                       else s3)
             in (s4, Inr (e, f))))"

definition unsubscribe :: "string \<times> fn \<Rightarrow> bus \<Rightarrow> bus \<times> (jsval + unit)" where
  "unsubscribe u s = off (Str (fst u)) (Fn (snd u)) s"

text \<open>
  \<open>once\<close> creates the closure \<open>wrapper\<close> with its latch \<open>completed = false\<close> and
  registers it with \<open>on\<close>.
\<close>

definition once :: "jsval \<Rightarrow> jsval \<Rightarrow> bus \<Rightarrow> bus \<times> (jsval + string \<times> fn)" where
  "once eventName handler s =
     (case validateEventName eventName of
        Inl err \<Rightarrow> (s, Inl err)
      | Inr e \<Rightarrow>
         (case validateHandler handler of
            Inl err \<Rightarrow> (s, Inl err)
          | Inr f \<Rightarrow>
             let w = nextWrapper s;
                 s1 = s\<lparr>wrappers := (wrappers s)(w := Some \<lparr>wEvent = e, wHandler = f, completed = False\<rparr>),
                        nextWrapper := Suc w\<rparr>
             in on eventName (Fn (Wrapper w)) s1))"

text \<open>Introspection.\<close>

definition listeners :: "jsval \<Rightarrow> bus \<Rightarrow> jsval + fn list" where
  "listeners eventName s =
     (case validateEventName eventName of
        Inl err \<Rightarrow> Inl err
      | Inr e \<Rightarrow> (case map_get (listenersMap s) e of Some a \<Rightarrow> Inr (setStore s a) | None \<Rightarrow> Inr []))"

definition listenerCount :: "jsval \<Rightarrow> bus \<Rightarrow> jsval + nat" where
  "listenerCount eventName s =
     (case validateEventName eventName of
        Inl err \<Rightarrow> Inl err
      | Inr e \<Rightarrow> (case map_get (listenersMap s) e of Some a \<Rightarrow> Inr (length (setStore s a)) | None \<Rightarrow> Inr 0))"

definition eventNames :: "bus \<Rightarrow> string list" where
  "eventNames s = map fst (listenersMap s)"

text \<open>\<open>clearListeners(eventName)\<close> is \<open>this.off(eventName ?? null)\<close>.\<close>

definition clearListeners :: "jsval \<Rightarrow> bus \<Rightarrow> bus \<times> (jsval + unit)" where
  "clearListeners eventName s =
     off (if eventName = Undefined \<or> eventName = Null then Null else eventName) Undefined s"

section \<open>The staged loader\<close>

text \<open>The \<open>options\<close> argument of \<open>registerModule\<close>; an absent property is \<open>Undefined\<close>.\<close>

record module_options =
  phase :: jsval
  beforeLoad :: jsval
  anchor :: jsval

text \<open>
  What the embedding environment supplies: the load capability \<open>import(specifier)\<close>
  with the way its promise settles, \<open>new URL(specifier, anchor).toString()\<close> (\<open>Inl\<close>
  when the constructor throws), which event sources of the host have a \<open>subscribe\<close>
  method, whether the host has the watchdog signal, and, for an object with a \<open>then\<close>
  method that is not a promise, the way the promise settles that \<open>Promise.resolve\<close>
  makes of it (a job of the host calls the \<open>then\<close> method with the two resolving
  functions; \<open>Pending\<close>: neither of them is ever called).
\<close>

record host =
  load :: "string \<Rightarrow> (unit, jsval) settle"
  resolveURL :: "string \<Rightarrow> jsval \<Rightarrow> jsval + string"
  sources :: "string \<Rightarrow> bool"
  watchdog :: bool
  adopt :: "jsval \<Rightarrow> (jsval, jsval) settle"

text \<open>The values that count as false in a condition.\<close>

definition falsy :: "jsval \<Rightarrow> bool" where
  "falsy v = (v = Undefined \<or> v = Null \<or> v = Bool False \<or> v = Num 0 \<or> v = Str [])"

text \<open>
  \<open>String.prototype.trim\<close> removes the white space and the line terminators of the
  language from both ends. A character of a string is here a code unit below 256; of
  these, the white space and line terminators are tab, line feed, vertical tab, form
  feed, carriage return, space and the no-break space \<open>U+00A0\<close>.
\<close>

definition is_space :: "char \<Rightarrow> bool" where
  "is_space c = (c \<in> {CHR 0x09, CHR 0x0A, CHR 0x0B, CHR 0x0C, CHR 0x0D, CHR 0x20, CHR 0xA0})"

definition trim :: "string \<Rightarrow> string" where
  "trim x = rev (dropWhile is_space (rev (dropWhile is_space x)))"

definition startsWith :: "string \<Rightarrow> string \<Rightarrow> bool" where
  "startsWith x p = (take (length p) x = p)"

definition is_letter :: "char \<Rightarrow> bool" where
  "is_letter c =
     (let n = (of_char c :: nat) in (97 \<le> n \<and> n \<le> 122) \<or> (65 \<le> n \<and> n \<le> 90))"

text \<open>The test of the regular expression \<open>/^([a-zA-Z]+:|\/\/|\/)/\<close>.\<close>

definition isAbsolute :: "string \<Rightarrow> bool" where
  "isAbsolute x =
     ((takeWhile is_letter x \<noteq> [] \<and> startsWith (dropWhile is_letter x) '':'')
      \<or> startsWith x ''//'' \<or> startsWith x ''/'')"

definition validateModuleSpecifier :: "jsval \<Rightarrow> jsval + string" where
  "validateModuleSpecifier specifier =
     (case specifier of
        Str x \<Rightarrow> if trim x = [] then Inl (TypeError ''Module specifier must be a non-empty string'')
                 else Inr x
      | _ \<Rightarrow> Inl (TypeError ''Module specifier must be a non-empty string''))"

definition resolveModuleSpecifier :: "host \<Rightarrow> string \<Rightarrow> jsval \<Rightarrow> jsval + string" where
  "resolveModuleSpecifier h specifier anc =
     (let trimmed = trim specifier;
          isRelative = (startsWith trimmed ''./'' \<or> startsWith trimmed ''../'')
      in if isAbsolute trimmed then Inr trimmed
         else if isRelative
         then (if falsy anc
               then Inl (Error ''Relative module specifiers require an anchor (pass { anchor: import.meta.url }).'')
               else resolveURL h trimmed anc)
         else Inr trimmed)"

definition normalizePhase :: "jsval \<Rightarrow> jsval \<Rightarrow> phase" where
  "normalizePhase ph legacyBeforeLoad =
     (if ph = Str ''bootstrap'' \<or> ph = Str ''before'' then BOOTSTRAP
      else if ph = Str ''runtime'' \<or> ph = Str ''after'' then RUNTIME
      else if \<not> falsy legacyBeforeLoad then BOOTSTRAP else RUNTIME)"

text \<open>
  \<open>importModule\<close> is an async function: the check of \<open>importedModules\<close>, the insertion
  and the call of \<open>import(specifier)\<close> happen in the call itself; the result is the way
  the returned promise settles. The line logged in the \<open>catch\<close> is written when the
  load fails.
\<close>

definition importModule :: "host \<Rightarrow> string \<Rightarrow> bus \<Rightarrow> bus \<times> (unit, jsval) settle" where
  "importModule h specifier s =
     (if specifier \<in> set (importedModules s) then (s, Fulfilled ())
      else let s1 = s\<lparr>importedModules := set_add specifier (importedModules s),
                       importCalls := importCalls s @ [specifier]\<rparr>
           in case load h specifier of
                Fulfilled _ \<Rightarrow> (s1, Fulfilled ())
              | Rejected err \<Rightarrow> (s1\<lparr>console := console s1 @ [ImportFailed specifier err]\<rparr>, Fulfilled ())
              | Pending \<Rightarrow> (s1, Pending))"

text \<open>\<open>pending.map((entry) => this.importModule(entry.specifier))\<close>.\<close>

fun importAll :: "host \<Rightarrow> string list \<Rightarrow> bus \<Rightarrow> bus \<times> (unit, jsval) settle list" where
  "importAll h [] s = (s, [])"
| "importAll h (x # xs) s =
     (let (s1, r) = importModule h x s; (s2, rs) = importAll h xs s1 in (s2, r # rs))"

definition is_rejected :: "('a, 'e) settle \<Rightarrow> bool" where
  "is_rejected r = (case r of Rejected _ \<Rightarrow> True | _ \<Rightarrow> False)"

text \<open>
  \<open>importPhase\<close>: \<open>await Promise.allSettled(...)\<close> never resumes when one of the
  promises never settles.
\<close>

definition importPhase :: "host \<Rightarrow> phase \<Rightarrow> bus \<Rightarrow> bus \<times> (unit, jsval) settle" where
  "importPhase h ph s =
     (let pending = filter (\<lambda>entry. snd (snd entry) = ph) (moduleQueue s);
          s1 = (if ph = BOOTSTRAP then s\<lparr>bootstrapCompleted := True\<rparr> else s);
          s2 = (if ph = RUNTIME then s1\<lparr>runtimeCompleted := True\<rparr> else s1)
      in if length pending = 0 then (s2, Fulfilled ())
         else let (s3, results) = importAll h (map (\<lambda>entry. fst (snd entry)) pending) s2
              in if Pending \<in> set results then (s3, Pending)
                 else let failures = filter is_rejected results
                      in if length failures > 0
                         then (s3\<lparr>console := console s3 @ [PhaseFailures (length failures) ph]\<rparr>, Fulfilled ())
                         else (s3, Fulfilled ()))"

text \<open>
  \<open>registerModule\<close> returns the capability that removes its entry from the queue; an
  entry is an object, known here by the number it was created with.
\<close>

definition registerModule :: "host \<Rightarrow> jsval \<Rightarrow> module_options \<Rightarrow> bus \<Rightarrow> bus \<times> (jsval + nat)" where
  "registerModule h specifier options s =
     (case validateModuleSpecifier specifier of
        Inl err \<Rightarrow> (s, Inl err)
      | Inr x \<Rightarrow>
         let ph = normalizePhase (phase options) (beforeLoad options)
         in case resolveModuleSpecifier h x (anchor options) of
              Inl err \<Rightarrow> (s, Inl err)
            | Inr resolvedSpecifier \<Rightarrow>
               let entry = (nextEntry s, resolvedSpecifier, ph);
                   s1 = s\<lparr>moduleQueue := moduleQueue s @ [entry], nextEntry := Suc (nextEntry s)\<rparr>;
                   bootstrapReady = (ph = BOOTSTRAP \<and> bootstrapCompleted s1);
                   runtimeReady = (ph = RUNTIME \<and> runtimeCompleted s1);
                   s2 = (if bootstrapReady \<or> runtimeReady
                         then fst (importModule h resolvedSpecifier s1) else s1)
               in (s2, Inr (fst entry)))"

definition cancel :: "nat \<Rightarrow> bus \<Rightarrow> bus" where
  "cancel entry s = s\<lparr>moduleQueue := filter (\<lambda>x. fst x \<noteq> entry) (moduleQueue s)\<rparr>"

definition setupWatchdogGuard :: "host \<Rightarrow> bus \<Rightarrow> bus" where
  "setupWatchdogGuard h s = (if watchdog h then s\<lparr>watchdogSubscribed := True\<rparr> else s)"

definition initialize :: "host \<Rightarrow> bus \<Rightarrow> bus" where
  "initialize h s =
     (if initialized s then s
      else let s1 = s\<lparr>initialized := True\<rparr>;
               s2 = setupWatchdogGuard h s1;
               s3 = fst (importPhase h BOOTSTRAP s2)
           in s3\<lparr>worldLoadSubscribed := True\<rparr>)"

definition bindings :: "string list" where
  "bindings = [''itemUse'', ''playerInventoryItemChange'', ''playerInteractWithBlock'',
     ''playerBreakBlock'', ''playerJoin'', ''playerLeave'', ''entitySpawn'', ''playerSpawn'']"

definition attachMinecraftEvents :: "host \<Rightarrow> bus \<Rightarrow> bus" where
  "attachMinecraftEvents h s = s\<lparr>attached := attached s @ filter (sources h) bindings\<rparr>"

section \<open>The dispatcher: delivery\<close>

text \<open>
  Applying a function value to arguments, from a state: \<open>None\<close> when the application
  does not return, otherwise the state it leaves and the value returned (\<open>Inr\<close>) or
  thrown (\<open>Inl\<close>).
\<close>

type_synonym callfn = "fn \<Rightarrow> jsval list \<Rightarrow> bus \<Rightarrow> (bus \<times> (jsval + jsval)) option"

definition members :: "bus \<Rightarrow> nat option \<Rightarrow> fn list" where
  "members s r = (case r of None \<Rightarrow> [] | Some a \<Rightarrow> setStore s a)"

text \<open>
  \<open>wildcardHandlers?.has(fn) && (!specificHandlers || !specificHandlers.has(fn))\<close>, read
  from the two \<open>Set\<close> objects as they are when the listener is about to be called.
\<close>

definition shouldSendEventName :: "bus \<Rightarrow> nat option \<Rightarrow> nat option \<Rightarrow> fn \<Rightarrow> bool" where
  "shouldSendEventName s specificHandlers wildcardHandlers f =
     ((case wildcardHandlers of None \<Rightarrow> False | Some a \<Rightarrow> f \<in> set (setStore s a))
      \<and> (case specificHandlers of None \<Rightarrow> True | Some a \<Rightarrow> f \<notin> set (setStore s a)))"

definition arguments :: "bus \<Rightarrow> nat option \<Rightarrow> nat option \<Rightarrow> string \<Rightarrow> jsval \<Rightarrow> fn \<Rightarrow> jsval list" where
  "arguments s specificHandlers wildcardHandlers e payload f =
     (if shouldSendEventName s specificHandlers wildcardHandlers f then [payload, Str e] else [payload])"

text \<open>
  The local \<open>Set\<close> named \<open>handlers\<close>: the members of the specific set, then those of
  the wildcard set, each added with \<open>add\<close>.
\<close>

definition delivery :: "bus \<Rightarrow> string \<Rightarrow> fn list" where
  "delivery s e =
     foldl (\<lambda>handlers f. set_add f handlers) []
       (members s (map_get (listenersMap s) e) @ members s (map_get (listenersMap s) ''*''))"

text \<open>The loop \<open>for (const fn of handlers)\<close> of \<open>emit\<close>, in its k-th call.\<close>

fun dispatch :: "callfn \<Rightarrow> string \<Rightarrow> jsval \<Rightarrow> nat \<Rightarrow> nat option \<Rightarrow> nat option \<Rightarrow> fn list \<Rightarrow> bus \<Rightarrow> bus option" where
  "dispatch call e payload k sp wi [] s = Some s"
| "dispatch call e payload k sp wi (f # fns) s =
     (let args = arguments s sp wi e payload f
      in case call f args (s\<lparr>trace := trace s @ [Invoke (FromEmit k) f args]\<rparr>) of
           None \<Rightarrow> None
         | Some (s1, r) \<Rightarrow>
            let s2 = s1\<lparr>trace := trace s1 @ [Complete (FromEmit k) f r]\<rparr>
            in case r of
                 Inr _ \<Rightarrow> dispatch call e payload k sp wi fns s2
               | Inl err \<Rightarrow>
                   dispatch call e payload k sp wi fns (s2\<lparr>console := console s2 @ [HandlerFailure e err]\<rparr>))"

definition emit_with :: "callfn \<Rightarrow> jsval \<Rightarrow> jsval \<Rightarrow> bus \<Rightarrow> (bus \<times> (jsval + unit)) option" where
  "emit_with call eventName payload s =
     (case validateEventName eventName of
        Inl err \<Rightarrow> Some (s, Inl err)
      | Inr e \<Rightarrow>
         let specificHandlers = map_get (listenersMap s) e;
             wildcardHandlers = map_get (listenersMap s) ''*''
         in if specificHandlers = None \<and> wildcardHandlers = None then Some (s, Inr ())
            else case dispatch call e payload (emitSeq s) specificHandlers wildcardHandlers
                        (delivery s e) (s\<lparr>emitSeq := Suc (emitSeq s)\<rparr>) of
                   None \<Rightarrow> None
                 | Some s' \<Rightarrow> Some (s', Inr ()))"

text \<open>
  \<open>emitAsync\<close>: \<open>Array.from(handlers, ...)\<close> calls every listener in turn and keeps one
  promise for each. \<open>Promise.resolve\<close> returns a promise as it is, takes over the state
  of any other object that has a \<open>then\<close> method, and makes a fulfilled promise of any
  other value; \<open>Promise.reject\<close> makes a rejected promise of the value thrown.
\<close>

definition thenable :: "jsval \<Rightarrow> bool" where
  "thenable v =
     (case v of
        Obj props \<Rightarrow> (case map_get props ''then'' of Some (Fn f) \<Rightarrow> True | _ \<Rightarrow> False)
      | _ \<Rightarrow> False)"

definition promise_resolve :: "host \<Rightarrow> jsval \<Rightarrow> (jsval, jsval) settle" where
  "promise_resolve h v =
     (case v of Promise st \<Rightarrow> st | _ \<Rightarrow> if thenable v then adopt h v else Fulfilled v)"

definition task_of :: "host \<Rightarrow> jsval + jsval \<Rightarrow> (jsval, jsval) settle" where
  "task_of h r = (case r of Inr result \<Rightarrow> promise_resolve h result | Inl err \<Rightarrow> Rejected err)"

fun launch :: "host \<Rightarrow> callfn \<Rightarrow> string \<Rightarrow> jsval \<Rightarrow> nat \<Rightarrow> nat option \<Rightarrow> nat option \<Rightarrow> fn list \<Rightarrow> bus
    \<Rightarrow> (bus \<times> (jsval, jsval) settle list) option" where
  "launch h call e payload k sp wi [] s = Some (s, [])"
| "launch h call e payload k sp wi (f # fns) s =
     (let args = arguments s sp wi e payload f
      in case call f args (s\<lparr>trace := trace s @ [Invoke (FromEmit k) f args]\<rparr>) of
           None \<Rightarrow> None
         | Some (s1, r) \<Rightarrow>
            (case launch h call e payload k sp wi fns (s1\<lparr>trace := trace s1 @ [Complete (FromEmit k) f r]\<rparr>) of
               None \<Rightarrow> None
             | Some (s', tasks) \<Rightarrow> Some (s', task_of h r # tasks)))"

text \<open>One element of the array \<open>Promise.allSettled\<close> resolves with.\<close>

datatype settled = StatusFulfilled jsval | StatusRejected jsval

definition allSettled :: "(jsval, jsval) settle list \<Rightarrow> (settled list, jsval) settle" where
  "allSettled tasks =
     (if Pending \<in> set tasks then Pending
      else Fulfilled (map (\<lambda>t. case t of Rejected reason \<Rightarrow> StatusRejected reason
                                      | Fulfilled v \<Rightarrow> StatusFulfilled v
                                      | Pending \<Rightarrow> StatusFulfilled Undefined) tasks))"

definition emitAsync_with :: "host \<Rightarrow> callfn \<Rightarrow> jsval \<Rightarrow> jsval \<Rightarrow> bus
    \<Rightarrow> (bus \<times> (settled list, jsval) settle) option" where
  "emitAsync_with h call eventName payload s =
     (case validateEventName eventName of
        Inl err \<Rightarrow> Some (s, Rejected err)
      | Inr e \<Rightarrow>
         let specificHandlers = map_get (listenersMap s) e;
             wildcardHandlers = map_get (listenersMap s) ''*''
         in if specificHandlers = None \<and> wildcardHandlers = None then Some (s, Fulfilled [])
            else case launch h call e payload (emitSeq s) specificHandlers wildcardHandlers
                        (delivery s e) (s\<lparr>emitSeq := Suc (emitSeq s)\<rparr>) of
                   None \<Rightarrow> None
                 | Some (s', tasks) \<Rightarrow> Some (s', allSettled tasks))"

text \<open>
  The closure \<open>wrapper\<close> of \<open>once\<close>, applied: its parameters are the first two
  arguments, the latch is set before the handler is called, and \<open>finally\<close> removes
  the wrapper whether the handler returns or throws. A wrapper that was never created
  cannot be applied.
\<close>

definition argument :: "jsval list \<Rightarrow> nat \<Rightarrow> jsval" where
  "argument args i = (if i < length args then args ! i else Undefined)"

definition wrapper_call :: "callfn \<Rightarrow> nat \<Rightarrow> jsval list \<Rightarrow> bus \<Rightarrow> (bus \<times> (jsval + jsval)) option" where
  "wrapper_call call w args s =
     (case wrappers s w of
        None \<Rightarrow> None
      | Some c \<Rightarrow>
         if completed c then Some (s, Inr Undefined)
         else let payload = argument args 0;
                  invokedEvent = argument args 1;
                  s1 = s\<lparr>wrappers := (wrappers s)(w := Some (c\<lparr>completed := True\<rparr>)),
                         trace := trace s @ [Invoke (FromWrapper w) (wHandler c) [payload, invokedEvent]]\<rparr>
              in case call (wHandler c) [payload, invokedEvent] s1 of
                   None \<Rightarrow> None
                 | Some (s2, r) \<Rightarrow>
                    (case off (Str (wEvent c)) (Fn (Wrapper w))
                            (s2\<lparr>trace := trace s2 @ [Complete (FromWrapper w) (wHandler c) r]\<rparr>) of
                       (s3, Inl err) \<Rightarrow> Some (s3, Inl err)
                     | (s3, Inr _) \<Rightarrow>
                        Some (s3, case r of Inl err \<Rightarrow> Inl err | Inr _ \<Rightarrow> Inr Undefined)))"

section \<open>Application code\<close>

text \<open>
  The listeners are code of the application. A listener body is a sequence of calls of
  the public operations, which may depend on the arguments it receives, followed by
  the value it returns; a call that throws ends the body with that exception, and
  \<open>AThrow\<close> throws a value of the listener's own.
\<close>

datatype action =
    AOn jsval jsval
  | AOnce jsval jsval
  | AOff jsval jsval
  | AClearListeners jsval
  | AEmit jsval jsval
  | AEmitAsync jsval jsval
  | ARegisterModule jsval module_options
  | ACancel nat
  | AInitialize
  | AThrow jsval

type_synonym program = "nat \<Rightarrow> jsval list \<Rightarrow> action list \<times> jsval"

definition thrown :: "bus \<times> (jsval + 'a) \<Rightarrow> (bus \<times> (jsval + unit)) option" where
  "thrown x = Some (fst x, case snd x of Inl err \<Rightarrow> Inl err | Inr _ \<Rightarrow> Inr ())"

fun exec_with :: "host \<Rightarrow> callfn \<Rightarrow> action \<Rightarrow> bus \<Rightarrow> (bus \<times> (jsval + unit)) option" where
  "exec_with h call (AOn eventName handler) s = thrown (on eventName handler s)"
| "exec_with h call (AOnce eventName handler) s = thrown (once eventName handler s)"
| "exec_with h call (AOff eventName handler) s = thrown (off eventName handler s)"
| "exec_with h call (AClearListeners eventName) s = thrown (clearListeners eventName s)"
| "exec_with h call (AEmit eventName payload) s = emit_with call eventName payload s"
| "exec_with h call (AEmitAsync eventName payload) s =
     (case emitAsync_with h call eventName payload s of
        None \<Rightarrow> None
      | Some (s', _) \<Rightarrow> Some (s', Inr ()))"
| "exec_with h call (ARegisterModule specifier options) s = thrown (registerModule h specifier options s)"
| "exec_with h call (ACancel entry) s = Some (cancel entry s, Inr ())"
| "exec_with h call AInitialize s = Some (initialize h s, Inr ())"
| "exec_with h call (AThrow err) s = Some (s, Inl err)"

fun run_with :: "host \<Rightarrow> callfn \<Rightarrow> action list \<Rightarrow> jsval \<Rightarrow> bus \<Rightarrow> (bus \<times> (jsval + jsval)) option" where
  "run_with h call [] result s = Some (s, Inr result)"
| "run_with h call (a # as) result s =
     (case exec_with h call a s of
        None \<Rightarrow> None
      | Some (s1, Inl err) \<Rightarrow> Some (s1, Inl err)
      | Some (s1, Inr _) \<Rightarrow> run_with h call as result s1)"

text \<open>
  Function application, with the number of nested applications still allowed: a
  listener or a wrapper runs with one less. \<open>None\<close> stands for an application that
  does not return within that depth.
\<close>

primrec invoke :: "host \<Rightarrow> program \<Rightarrow> nat \<Rightarrow> callfn" where
  "invoke h prog 0 = (\<lambda>f args s. None)"
| "invoke h prog (Suc n) =
     (\<lambda>f args s. case f of
        Handler i \<Rightarrow> run_with h (invoke h prog n) (fst (prog i args)) (snd (prog i args)) s
      | Wrapper w \<Rightarrow> wrapper_call (invoke h prog n) w args s)"

definition emit :: "host \<Rightarrow> program \<Rightarrow> nat \<Rightarrow> jsval \<Rightarrow> jsval \<Rightarrow> bus \<Rightarrow> (bus \<times> (jsval + unit)) option" where
  "emit h prog n = emit_with (invoke h prog n)"

definition emitAsync :: "host \<Rightarrow> program \<Rightarrow> nat \<Rightarrow> jsval \<Rightarrow> jsval \<Rightarrow> bus
    \<Rightarrow> (bus \<times> (settled list, jsval) settle) option" where
  "emitAsync h prog n = emitAsync_with h (invoke h prog n)"

section \<open>The lifecycle controller and the host\<close>

text \<open>
  The callback \<open>initialize\<close> gives to \<open>world.afterEvents.worldLoad.subscribe\<close>. The
  host can call it only once \<open>initialize\<close> has subscribed it.
\<close>

definition worldLoad_with :: "host \<Rightarrow> callfn \<Rightarrow> jsval \<Rightarrow> bus \<Rightarrow> bus option" where
  "worldLoad_with h call event s =
     (if \<not> worldLoadSubscribed s \<or> worldReady s then Some s
      else let s1 = s\<lparr>worldReady := True\<rparr>;
               s2 = attachMinecraftEvents h s1
           in case emit_with call (Str ''worldLoad'') event s2 of
                None \<Rightarrow> None
              | Some (s3, Inl err) \<Rightarrow> Some (s3\<lparr>console := console s3 @ [WorldLoadFailure err]\<rparr>)
              | Some (s3, Inr _) \<Rightarrow> Some (fst (importPhase h RUNTIME s3)))"

text \<open>The callback \<open>(payload) => this.emit(event, payload)\<close> bound to a host source.\<close>

definition hostEvent_with :: "callfn \<Rightarrow> string \<Rightarrow> jsval \<Rightarrow> bus \<Rightarrow> bus option" where
  "hostEvent_with call name payload s =
     (if name \<in> set (attached s)
      then (case emit_with call (Str name) payload s of None \<Rightarrow> None | Some (s', _) \<Rightarrow> Some s')
      else Some s)"

definition property :: "jsval \<Rightarrow> string \<Rightarrow> jsval" where
  "property v name =
     (case v of Obj props \<Rightarrow> (case map_get props name of Some x \<Rightarrow> x | None \<Rightarrow> Undefined)
              | _ \<Rightarrow> Undefined)"

text \<open>
  The assignment \<open>event.cancel = true\<close> inside \<open>try\<close>: an object with properties
  (\<open>Obj\<close>) gets the property, or its new value; on a value that is not an object the
  assignment fails, and the failure is caught.
\<close>

definition assign :: "jsval \<Rightarrow> string \<Rightarrow> jsval \<Rightarrow> jsval" where
  "assign v name x = (case v of Obj props \<Rightarrow> Obj (map_set props name x) | _ \<Rightarrow> v)"

text \<open>
  The callback of the watchdog signal; \<open>now\<close> is what \<open>Date.now()\<close> returns. The
  listeners of \<open>shutdown\<close> get the event object as the assignment left it.
\<close>

definition watchdogTerminate_with :: "callfn \<Rightarrow> jsval \<Rightarrow> int \<Rightarrow> bus \<Rightarrow> bus option" where
  "watchdogTerminate_with call event0 now s =
     (if \<not> watchdogSubscribed s then Some s
      else let event = assign event0 ''cancel'' (Bool True);
               reason = (if property event ''terminateReason'' = Undefined
                            \<or> property event ''terminateReason'' = Null
                         then Str ''unknown'' else property event ''terminateReason'');
               s1 = s\<lparr>console := console s @ [WatchdogBlocked reason]\<rparr>
           in case emit_with call (Str ''shutdown'')
                     (Obj [(''data'', event), (''timestamp'', Num now), (''isWatchdog'', Bool True)]) s1 of
                None \<Rightarrow> None
              | Some (s2, Inl err) \<Rightarrow> Some (s2\<lparr>console := console s2 @ [ShutdownEmitFailure err]\<rparr>)
              | Some (s2, Inr _) \<Rightarrow> Some s2)"

text \<open>
  What can happen to the bus from outside: a call of a public operation by the
  application, or a callback called by the host. An exception that leaves a public
  operation ends that call only.
\<close>

datatype op =
    App action
  | WorldLoad jsval
  | HostEvent string jsval
  | WatchdogTerminate jsval int

fun exec_op :: "host \<Rightarrow> program \<Rightarrow> nat \<Rightarrow> op \<Rightarrow> bus \<Rightarrow> bus option" where
  "exec_op h prog n (App a) s =
     (case exec_with h (invoke h prog n) a s of None \<Rightarrow> None | Some (s', _) \<Rightarrow> Some s')"
| "exec_op h prog n (WorldLoad event) s = worldLoad_with h (invoke h prog n) event s"
| "exec_op h prog n (HostEvent name payload) s = hostEvent_with (invoke h prog n) name payload s"
| "exec_op h prog n (WatchdogTerminate event now) s = watchdogTerminate_with (invoke h prog n) event now s"

fun run_ops :: "host \<Rightarrow> program \<Rightarrow> nat \<Rightarrow> op list \<Rightarrow> bus \<Rightarrow> bus option" where
  "run_ops h prog n [] s = Some s"
| "run_ops h prog n (x # xs) s =
     (case exec_op h prog n x s of None \<Rightarrow> None | Some s1 \<Rightarrow> run_ops h prog n xs s1)"

section \<open>Reading the record of applications\<close>

text \<open>The applications made by the k-th call of \<open>emit\<close> or \<open>emitAsync\<close>, in order.\<close>

fun dispatched :: "nat \<Rightarrow> event list \<Rightarrow> (fn \<times> jsval list) list" where
  "dispatched k [] = []"
| "dispatched k (Invoke c f args # tr) =
     (if c = FromEmit k then (f, args) # dispatched k tr else dispatched k tr)"
| "dispatched k (Complete c f r # tr) = dispatched k tr"

text \<open>How the applications made by the k-th call ended, in order.\<close>

fun completions :: "nat \<Rightarrow> event list \<Rightarrow> (fn \<times> (jsval + jsval)) list" where
  "completions k [] = []"
| "completions k (Invoke c f args # tr) = completions k tr"
| "completions k (Complete c f r # tr) =
     (if c = FromEmit k then (f, r) # completions k tr else completions k tr)"


text \<open>What a call added to the record.\<close>

definition added :: "bus \<Rightarrow> bus \<Rightarrow> event list" where
  "added s s' = drop (length (trace s)) (trace s')"

section \<open>Relations between the states of an execution\<close>

text \<open>
  \<open>call_sat R call\<close>: every application made through \<open>call\<close> that returns relates the
  state it started from to the state it leaves.
\<close>

definition call_sat :: "(bus \<Rightarrow> bus \<Rightarrow> bool) \<Rightarrow> callfn \<Rightarrow> bool" where
  "call_sat R call \<longleftrightarrow> (\<forall>f args s s' r. call f args s = Some (s', r) \<longrightarrow> R s s')"

text \<open>
  A relation that every public operation respects, given that the listeners called on
  the way respect it.
\<close>

definition closed_under :: "host \<Rightarrow> (bus \<Rightarrow> bus \<Rightarrow> bool) \<Rightarrow> bool" where
  "closed_under h R \<longleftrightarrow>
     (\<forall>s. R s s) \<and> (\<forall>a b c. R a b \<longrightarrow> R b c \<longrightarrow> R a c)
     \<and> (\<forall>ev hl s. R s (fst (on ev hl s)))
     \<and> (\<forall>ev hl s. R s (fst (once ev hl s)))
     \<and> (\<forall>ev hl s. R s (fst (off ev hl s)))
     \<and> (\<forall>x opts s. R s (fst (registerModule h x opts s)))
     \<and> (\<forall>i s. R s (cancel i s))
     \<and> (\<forall>s. R s (initialize h s))
     \<and> (\<forall>call ev p s s' r. call_sat R call \<longrightarrow> emit_with call ev p s = Some (s', r) \<longrightarrow> R s s')
     \<and> (\<forall>call ev p s s' r. call_sat R call \<longrightarrow> emitAsync_with h call ev p s = Some (s', r) \<longrightarrow> R s s')
     \<and> (\<forall>call w args s s' r. call_sat R call \<longrightarrow> wrapper_call call w args s = Some (s', r) \<longrightarrow> R s s')"

text \<open>The caller's number, for an entry written by \<open>emit\<close> or \<open>emitAsync\<close>.\<close>

fun emit_tag :: "event \<Rightarrow> nat option" where
  "emit_tag (Invoke c f args) = (case c of FromEmit j \<Rightarrow> Some j | FromWrapper w \<Rightarrow> None)"
| "emit_tag (Complete c f r) = (case c of FromEmit j \<Rightarrow> Some j | FromWrapper w \<Rightarrow> None)"

text \<open>
  The single steps a delivery is made of: a console line, the latch of a wrapper set
  together with the entry of its application, the entry of its completion, and \<open>off\<close>.
\<close>

definition basic :: "(bus \<Rightarrow> bus \<Rightarrow> bool) \<Rightarrow> bool" where
  "basic R \<longleftrightarrow>
     (\<forall>s. R s s) \<and> (\<forall>a b c. R a b \<longrightarrow> R b c \<longrightarrow> R a c)
     \<and> (\<forall>s l. R s (s\<lparr>console := console s @ [l]\<rparr>))
     \<and> (\<forall>s w f r. R s (s\<lparr>trace := trace s @ [Complete (FromWrapper w) f r]\<rparr>))
     \<and> (\<forall>s w c args. wrappers s w = Some c \<longrightarrow> \<not> completed c \<longrightarrow>
           R s (s\<lparr>wrappers := (wrappers s)(w := Some (c\<lparr>completed := True\<rparr>)),
                  trace := trace s @ [Invoke (FromWrapper w) (wHandler c) args]\<rparr>))
     \<and> (\<forall>ev hl s. R s (fst (off ev hl s)))"

definition tagged :: "nat \<Rightarrow> (bus \<Rightarrow> bus \<Rightarrow> bool) \<Rightarrow> bool" where
  "tagged j R \<longleftrightarrow> (\<forall>s x. emit_tag x = Some j \<longrightarrow> R s (s\<lparr>trace := trace s @ [x]\<rparr>))"

definition elementary :: "(bus \<Rightarrow> bus \<Rightarrow> bool) \<Rightarrow> bool" where
  "elementary R \<longleftrightarrow> basic R \<and> (\<forall>j. tagged j R) \<and> (\<forall>s. R s (s\<lparr>emitSeq := Suc (emitSeq s)\<rparr>))"

text \<open>A relation respected by the callbacks of the host as well.\<close>

definition host_closed :: "host \<Rightarrow> (bus \<Rightarrow> bus \<Rightarrow> bool) \<Rightarrow> bool" where
  "host_closed h R \<longleftrightarrow>
     closed_under h R
     \<and> (\<forall>s l. R s (s\<lparr>console := console s @ [l]\<rparr>))
     \<and> (\<forall>s. R s (attachMinecraftEvents h (s\<lparr>worldReady := True\<rparr>)))
     \<and> (\<forall>s ph. R s (fst (importPhase h ph s)))"

text \<open>A property of states kept by every step, as a relation.\<close>

definition keeps :: "(bus \<Rightarrow> bool) \<Rightarrow> bus \<Rightarrow> bus \<Rightarrow> bool" where
  "keeps I s s' \<longleftrightarrow> (I s \<longrightarrow> I s')"

text \<open>
  \<open>later s s'\<close>: the record of \<open>s'\<close> continues that of \<open>s\<close>, and every entry that a call
  of \<open>emit\<close> or \<open>emitAsync\<close> wrote in between carries a number not yet given out in
  \<open>s\<close>. \<open>within k\<close> allows the number \<open>k\<close> of a call in progress as well.
\<close>

definition tags_from :: "nat \<Rightarrow> event list \<Rightarrow> bool" where
  "tags_from m tr \<longleftrightarrow> (\<forall>x \<in> set tr. \<forall>j. emit_tag x = Some j \<longrightarrow> m \<le> j)"

definition later :: "bus \<Rightarrow> bus \<Rightarrow> bool" where
  "later s s' \<longleftrightarrow> emitSeq s \<le> emitSeq s' \<and> (\<exists>ys. trace s' = trace s @ ys \<and> tags_from (emitSeq s) ys)"

definition within :: "nat \<Rightarrow> bus \<Rightarrow> bus \<Rightarrow> bool" where
  "within k s s' \<longleftrightarrow>
     emitSeq s \<le> emitSeq s'
     \<and> (\<exists>ys. trace s' = trace s @ ys
            \<and> (\<forall>x \<in> set ys. \<forall>j. emit_tag x = Some j \<longrightarrow> j = k \<or> emitSeq s \<le> j))"

text \<open>\<open>grows s s'\<close>: the console only gains lines.\<close>

definition grows :: "bus \<Rightarrow> bus \<Rightarrow> bool" where
  "grows s s' \<longleftrightarrow> (\<exists>zs. console s' = console s @ zs)"

text \<open>
  The registry as the operations keep it: one entry for an event name, one \<open>Set\<close>
  object for an entry, no entry with an empty set, no member twice in a set.
\<close>

definition reg_ok :: "bus \<Rightarrow> bool" where
  "reg_ok s \<longleftrightarrow>
     distinct (map fst (listenersMap s)) \<and> distinct (map snd (listenersMap s))
     \<and> (\<forall>x \<in> set (listenersMap s). snd x < nextSet s \<and> setStore s (snd x) \<noteq> [])
     \<and> (\<forall>a. distinct (setStore s a))"



text \<open>
  The loader as the operations keep it: the load capability was called for exactly
  the members of \<open>importedModules\<close>, and for none of them twice.
\<close>

definition loader_ok :: "bus \<Rightarrow> bool" where
  "loader_ok s \<longleftrightarrow> distinct (importCalls s) \<and> set (importCalls s) = set (importedModules s)"

section \<open>The rounds of a delivery\<close>

text \<open>
  \<open>reached h prog n e p s i\<close> is the state in which the loop of the call \<open>emit(e, p)\<close>
  made in the state \<open>s\<close> is about to apply the i-th member of its local set (\<open>None\<close>
  when the loop does not get there), and \<open>given s e p sm f\<close> are the arguments it gives
  to the listener \<open>f\<close> when it applies it in the state \<open>sm\<close>.
\<close>

definition reached :: "host \<Rightarrow> program \<Rightarrow> nat \<Rightarrow> string \<Rightarrow> jsval \<Rightarrow> bus \<Rightarrow> nat \<Rightarrow> bus option" where
  "reached h prog n e p s i =
     dispatch (invoke h prog n) e p (emitSeq s) (map_get (listenersMap s) e)
       (map_get (listenersMap s) ''*'') (take i (delivery s e)) (s\<lparr>emitSeq := Suc (emitSeq s)\<rparr>)"

definition given :: "bus \<Rightarrow> string \<Rightarrow> jsval \<Rightarrow> bus \<Rightarrow> fn \<Rightarrow> jsval list" where
  "given s e p sm f =
     arguments sm (map_get (listenersMap s) e) (map_get (listenersMap s) ''*'') e p f"

text \<open>
  \<open>applied h prog n k f args sm\<close> is the application of the function \<open>f\<close> to \<open>args\<close> by
  the k-th call of \<open>emit\<close> or \<open>emitAsync\<close>, from the state \<open>sm\<close>: the state the function
  leaves and the value it returned or threw, \<open>None\<close> when it does not return. \<open>caught e
  k f r q\<close> is the state a round of the loop of \<open>emit\<close> ends in, when the listener left
  the state \<open>q\<close>: its \<open>catch\<close> writes the line of a failure to the console.
\<close>

definition applied :: "host \<Rightarrow> program \<Rightarrow> nat \<Rightarrow> nat \<Rightarrow> fn \<Rightarrow> jsval list \<Rightarrow> bus
    \<Rightarrow> (bus \<times> (jsval + jsval)) option" where
  "applied h prog n k f args sm =
     invoke h prog n f args (sm\<lparr>trace := trace sm @ [Invoke (FromEmit k) f args]\<rparr>)"

definition ended :: "nat \<Rightarrow> fn \<Rightarrow> jsval + jsval \<Rightarrow> bus \<Rightarrow> bus" where
  "ended k f r q = q\<lparr>trace := trace q @ [Complete (FromEmit k) f r]\<rparr>"

definition caught :: "string \<Rightarrow> nat \<Rightarrow> fn \<Rightarrow> jsval + jsval \<Rightarrow> bus \<Rightarrow> bus" where
  "caught e k f r q =
     (case r of
        Inl err \<Rightarrow> (ended k f r q)\<lparr>console := console q @ [HandlerFailure e err]\<rparr>
      | Inr v \<Rightarrow> ended k f r q)"



text \<open>
  The same for \<open>emitAsync(e, p)\<close>: the state in which it is about to apply the i-th
  member, with the promises kept so far.
\<close>

definition launched :: "host \<Rightarrow> program \<Rightarrow> nat \<Rightarrow> string \<Rightarrow> jsval \<Rightarrow> bus \<Rightarrow> nat
    \<Rightarrow> (bus \<times> (jsval, jsval) settle list) option" where
  "launched h prog n e p s i =
     launch h (invoke h prog n) e p (emitSeq s) (map_get (listenersMap s) e)
       (map_get (listenersMap s) ''*'') (take i (delivery s e)) (s\<lparr>emitSeq := Suc (emitSeq s)\<rparr>)"

text \<open>The lines a call added to the console.\<close>

definition logged :: "bus \<Rightarrow> bus \<Rightarrow> log list" where
  "logged s s' = drop (length (console s)) (console s')"

text \<open>The gate of a phase: whether its batch load was attempted.\<close>

definition gate :: "bus \<Rightarrow> phase \<Rightarrow> bool" where
  "gate s ph = (case ph of BOOTSTRAP \<Rightarrow> bootstrapCompleted s | RUNTIME \<Rightarrow> runtimeCompleted s)"

section \<open>Example environments\<close>

text \<open>
  A host whose loads succeed, except for the specifier \<open>bad\<close>, and where an object with
  a \<open>then\<close> method resolves with 1.
\<close>

definition example_host :: host where
  "example_host = \<lparr> load = (\<lambda>x. if x = ''bad'' then Rejected (Error ''load failed'') else Fulfilled ()),
     resolveURL = (\<lambda>x a. Inr x), sources = (\<lambda>_. True), watchdog = True,
     adopt = (\<lambda>v. Fulfilled (Num 1)) \<rparr>"

text \<open>
  An application with nine kinds of listeners: listener 1 throws, listener 2 emits the
  event \<open>x\<close> again from its body, listener 3 returns a promise that rejects, listener 4
  returns a promise that resolves, listener 6 removes listener 0 from the event \<open>x\<close>,
  removes the event \<open>x\<close> and registers listener 0 for it again, listener 7 emits the
  event \<open>y\<close>, listener 8 throws its first argument, listener 9 returns an object with a
  \<open>then\<close> method, and every other listener just returns.
\<close>

definition example_program :: program where
  "example_program i args =
     (if i = 1 then ([AThrow (Error ''boom'')], Undefined)
      else if i = 2 then ([AEmit (Str ''x'') (Num 99)], Undefined)
      else if i = 3 then ([], Promise (Rejected (Error ''rejected'')))
      else if i = 4 then ([], Promise (Fulfilled (Num 5)))
      else if i = 6 then ([AOff (Str ''x'') (Fn (Handler 0)), AOff (Str ''x'') Undefined,
                           AOn (Str ''x'') (Fn (Handler 0))], Undefined)
      else if i = 7 then ([AEmit (Str ''y'') (Num 1)], Undefined)
      else if i = 8 then ([AThrow (argument args 0)], Undefined)
      else if i = 9 then ([], Obj [(''then'', Fn (Handler 0))])
      else ([], Undefined))"

text \<open>
  The registry after \<open>on("x", L1); once("x", L2); on("x", L0)\<close>: a listener that
  throws, a one-shot listener that emits \<open>x\<close> again from its body, and a plain one.
\<close>

definition thrower_among_others :: bus where
  "thrower_among_others =
     fst (on (Str ''x'') (Fn (Handler 0))
       (fst (once (Str ''x'') (Fn (Handler 2))
         (fst (on (Str ''x'') (Fn (Handler 1)) initial)))))"

text \<open>The listeners a call \<open>emit(e, p)\<close> applies itself, in the order of application.\<close>

definition emit_order :: "host \<Rightarrow> program \<Rightarrow> nat \<Rightarrow> string \<Rightarrow> jsval \<Rightarrow> bus \<Rightarrow> fn list option" where
  "emit_order h prog n e p s =
     map_option (\<lambda>x. map fst (dispatched (emitSeq s) (added s (fst x)))) (emit h prog n (Str e) p s)"

text \<open>The registry after \<open>on("x", L0); on("x", L5); on("x", L0)\<close>.\<close>

definition registered_again :: bus where
  "registered_again =
     fst (on (Str ''x'') (Fn (Handler 0))
       (fst (on (Str ''x'') (Fn (Handler 5))
         (fst (on (Str ''x'') (Fn (Handler 0)) initial)))))"

text \<open>The registry after \<open>on("x", L0); on("*", L0); on("*", L5)\<close>.\<close>

definition specific_and_wildcard :: bus where
  "specific_and_wildcard =
     fst (on (Str ''*'') (Fn (Handler 5))
       (fst (on (Str ''*'') (Fn (Handler 0))
         (fst (on (Str ''x'') (Fn (Handler 0)) initial)))))"

text \<open>
  A session: two registrations, a one-shot registration, its event, and a removal.
\<close>

definition example_session :: "op list" where
  "example_session =
     [App (AOn (Str ''x'') (Fn (Handler 0))),
      App (AOn (Str ''y'') (Fn (Handler 1))),
      App (AOnce (Str ''z'') (Fn (Handler 0))),
      App (AEmit (Str ''z'') (Num 1)),
      App (AOff (Str ''y'') (Fn (Handler 1)))]"

text \<open>The applications a call \<open>emit(e, p)\<close> makes itself, each with its arguments.\<close>

definition emit_calls :: "host \<Rightarrow> program \<Rightarrow> nat \<Rightarrow> string \<Rightarrow> jsval \<Rightarrow> bus \<Rightarrow> (fn \<times> jsval list) list option" where
  "emit_calls h prog n e p s =
     map_option (\<lambda>x. dispatched (emitSeq s) (added s (fst x))) (emit h prog n (Str e) p s)"

text \<open>The registry after \<open>on("x", L6); on("x", L0); on("*", L0)\<close>.\<close>

definition registry_changed_in_flight :: bus where
  "registry_changed_in_flight =
     fst (on (Str ''*'') (Fn (Handler 0))
       (fst (on (Str ''x'') (Fn (Handler 0))
         (fst (on (Str ''x'') (Fn (Handler 6)) initial)))))"

text \<open>
  The registry after \<open>once("x", L10); on("x", L7); on("x", L0); on("*", L0); on("*", L5)\<close>:
  a one-shot listener, a listener that emits another event, a listener registered for
  \<open>x\<close> and for the wildcard, and one registered for the wildcard only.
\<close>

definition once_and_wildcard :: bus where
  "once_and_wildcard =
     fst (on (Str ''*'') (Fn (Handler 5))
       (fst (on (Str ''*'') (Fn (Handler 0))
         (fst (on (Str ''x'') (Fn (Handler 0))
           (fst (on (Str ''x'') (Fn (Handler 7))
             (fst (once (Str ''x'') (Fn (Handler 10)) initial)))))))))"

text \<open>The state a call \<open>emit(e, p)\<close> leaves.\<close>

definition after_emit :: "host \<Rightarrow> program \<Rightarrow> nat \<Rightarrow> string \<Rightarrow> jsval \<Rightarrow> bus \<Rightarrow> bus option" where
  "after_emit h prog n e p s = map_option fst (emit h prog n (Str e) p s)"

text \<open>
  What a listener contributes to the result of \<open>emitAsync\<close> once it has settled: a
  failure when it threw, or returned a promise or an object with a \<open>then\<close> method that
  rejects; a success when it returned a promise or such an object that resolves, or
  any other value; nothing as long as what it returned does not settle.
\<close>

fun outcome_of :: "host \<Rightarrow> jsval + jsval \<Rightarrow> settled option" where
  "outcome_of h (Inl err) = Some (StatusRejected err)"
| "outcome_of h (Inr (Promise (Rejected err))) = Some (StatusRejected err)"
| "outcome_of h (Inr (Promise (Fulfilled v))) = Some (StatusFulfilled v)"
| "outcome_of h (Inr (Promise Pending)) = None"
| "outcome_of h (Inr v) =
     (if thenable v
      then (case adopt h v of
              Rejected err \<Rightarrow> Some (StatusRejected err)
            | Fulfilled x \<Rightarrow> Some (StatusFulfilled x)
            | Pending \<Rightarrow> None)
      else Some (StatusFulfilled v))"

text \<open>
  The registry after \<open>on("x", L3); on("x", L4); on("x", L1); once("x", L7); on("x", L9)\<close>:
  a listener whose promise rejects, one whose promise resolves, one that throws, a
  one-shot listener that emits another event, and one that returns an object with a
  \<open>then\<close> method.
\<close>

definition five_listeners :: bus where
  "five_listeners =
     fst (on (Str ''x'') (Fn (Handler 9))
       (fst (once (Str ''x'') (Fn (Handler 7))
         (fst (on (Str ''x'') (Fn (Handler 1))
           (fst (on (Str ''x'') (Fn (Handler 4))
             (fst (on (Str ''x'') (Fn (Handler 3)) initial)))))))))"

text \<open>The options \<open>{ phase: "bootstrap" }\<close> and \<open>{ phase: "runtime" }\<close>.\<close>

definition bootstrap_options :: module_options where
  "bootstrap_options = \<lparr> phase = Str ''bootstrap'', beforeLoad = Undefined, anchor = Undefined \<rparr>"

definition runtime_options :: module_options where
  "runtime_options = \<lparr> phase = Str ''runtime'', beforeLoad = Undefined, anchor = Undefined \<rparr>"

text \<open>
  A session: \<open>initialize\<close>, as the module calls it when it is loaded, then
  \<open>registerModule("bad", { phase: "runtime" })\<close> and \<open>registerModule("good", { phase:
  "runtime" })\<close>; the load of \<open>bad\<close> fails on the example host.
\<close>

definition runtime_batch :: "op list" where
  "runtime_batch =
     [App AInitialize,
      App (ARegisterModule (Str ''bad'') runtime_options),
      App (ARegisterModule (Str ''good'') runtime_options)]"

text \<open>A session: a registration before \<open>initialize\<close>, \<open>initialize\<close>, the same registration again.\<close>

definition loader_session :: "op list" where
  "loader_session =
     [App (ARegisterModule (Str ''a'') bootstrap_options), App AInitialize,
      App (ARegisterModule (Str ''a'') bootstrap_options)]"




section \<open>Executions respect closed relations\<close>

lemma call_satD: "call_sat R call \<Longrightarrow> call f args s = Some (s', r) \<Longrightarrow> R s s'"
  unfolding call_sat_def by blast

lemma call_sat_mono: "(\<And>s s'. R s s' \<Longrightarrow> Q s s') \<Longrightarrow> call_sat R call \<Longrightarrow> call_sat Q call"
  unfolding call_sat_def by blast

lemma closed_under_refl: "closed_under h R \<Longrightarrow> R s s"
  unfolding closed_under_def by (elim conjE) (erule allE)

lemma closed_under_trans: "closed_under h R \<Longrightarrow> R a b \<Longrightarrow> R b c \<Longrightarrow> R a c"
  unfolding closed_under_def by (elim conjE) meson

lemma closed_under_emit:
  "closed_under h R \<Longrightarrow> call_sat R call \<Longrightarrow> emit_with call ev p s = Some (s', r) \<Longrightarrow> R s s'"
  unfolding closed_under_def by (elim conjE) meson

lemma closed_under_emitAsync:
  "closed_under h R \<Longrightarrow> call_sat R call \<Longrightarrow> emitAsync_with h call ev p s = Some (s', r) \<Longrightarrow> R s s'"
  unfolding closed_under_def by (elim conjE) meson

lemma closed_under_wrapper:
  "closed_under h R \<Longrightarrow> call_sat R call \<Longrightarrow> wrapper_call call w args s = Some (s', r) \<Longrightarrow> R s s'"
  unfolding closed_under_def by (elim conjE) meson

lemma exec_with_sat:
  assumes c: "closed_under h R" and k: "call_sat R call"
    and x: "exec_with h call a s = Some (s', r)"
  shows "R s s'"
proof (cases a)
  case (AOn ev hl)
  with x have "s' = fst (on ev hl s)" by (simp add: thrown_def)
  with c show ?thesis by (simp add: closed_under_def)
next
  case (AOnce ev hl)
  with x have "s' = fst (once ev hl s)" by (simp add: thrown_def)
  with c show ?thesis by (simp add: closed_under_def)
next
  case (AOff ev hl)
  with x have "s' = fst (off ev hl s)" by (simp add: thrown_def)
  with c show ?thesis by (simp add: closed_under_def)
next
  case (AClearListeners ev)
  with x have "s' = fst (off (if ev = Undefined \<or> ev = Null then Null else ev) Undefined s)"
    by (simp add: thrown_def clearListeners_def)
  with c show ?thesis by (simp add: closed_under_def)
next
  case (AEmit ev p)
  with x have "emit_with call ev p s = Some (s', r)" by simp
  with c k show ?thesis by (blast intro: closed_under_emit)
next
  case (AEmitAsync ev p)
  with x obtain q where "emitAsync_with h call ev p s = Some (s', q)"
    by (auto split: option.splits)
  with c k show ?thesis by (blast intro: closed_under_emitAsync)
next
  case (ARegisterModule x1 opts)
  with x have "s' = fst (registerModule h x1 opts s)" by (simp add: thrown_def)
  with c show ?thesis by (simp add: closed_under_def)
next
  case (ACancel i)
  with x have "s' = cancel i s" by simp
  with c show ?thesis by (simp add: closed_under_def)
next
  case AInitialize
  with x have "s' = initialize h s" by simp
  with c show ?thesis by (simp add: closed_under_def)
next
  case (AThrow err)
  with x have "s' = s" by simp
  with c show ?thesis by (simp add: closed_under_def)
qed

lemma run_with_sat:
  assumes c: "closed_under h R" and k: "call_sat R call"
  shows "run_with h call as res s = Some (s', r) \<Longrightarrow> R s s'"
proof (induction as arbitrary: s)
  case Nil
  with c show ?case by (simp add: closed_under_def)
next
  case (Cons a as)
  from Cons.prems obtain s1 r1 where e: "exec_with h call a s = Some (s1, r1)"
    by (auto split: option.splits)
  have r1: "R s s1" by (rule exec_with_sat[OF c k e])
  show ?case
  proof (cases r1)
    case (Inl err)
    with Cons.prems e have "s' = s1" by simp
    with r1 show ?thesis by simp
  next
    case (Inr u)
    with Cons.prems e have "run_with h call as res s1 = Some (s', r)" by simp
    then have "R s1 s'" by (rule Cons.IH)
    with r1 c show ?thesis by (blast intro: closed_under_trans)
  qed
qed

text \<open>Induction on the depth of nested applications.\<close>

lemma invoke_sat:
  assumes c: "closed_under h R"
  shows "call_sat R (invoke h prog n)"
proof (induction n)
  case 0
  show ?case by (simp add: call_sat_def)
next
  case (Suc n)
  show ?case unfolding call_sat_def
  proof (intro allI impI)
    fix f args s s' r
    assume x: "invoke h prog (Suc n) f args s = Some (s', r)"
    show "R s s'"
    proof (cases f)
      case (Handler i)
      with x have "run_with h (invoke h prog n) (fst (prog i args)) (snd (prog i args)) s = Some (s', r)"
        by simp
      then show ?thesis by (rule run_with_sat[OF c Suc])
    next
      case (Wrapper w)
      with x have "wrapper_call (invoke h prog n) w args s = Some (s', r)" by simp
      with c Suc show ?thesis by (blast intro: closed_under_wrapper)
    qed
  qed
qed

lemma basic_refl: "basic R \<Longrightarrow> R s s"
  unfolding basic_def by (elim conjE) (erule allE)

lemma basic_trans: "basic R \<Longrightarrow> R a b \<Longrightarrow> R b c \<Longrightarrow> R a c"
  unfolding basic_def by (elim conjE) meson

lemma basic_console: "basic R \<Longrightarrow> R s (s\<lparr>console := console s @ [l]\<rparr>)"
  unfolding basic_def by (elim conjE) meson

lemma basic_complete: "basic R \<Longrightarrow> R s (s\<lparr>trace := trace s @ [Complete (FromWrapper w) f r]\<rparr>)"
  unfolding basic_def by (elim conjE) meson

lemma basic_latch:
  "basic R \<Longrightarrow> wrappers s w = Some c \<Longrightarrow> \<not> completed c \<Longrightarrow>
     R s (s\<lparr>wrappers := (wrappers s)(w := Some (c\<lparr>completed := True\<rparr>)),
            trace := trace s @ [Invoke (FromWrapper w) (wHandler c) args]\<rparr>)"
  unfolding basic_def by (elim conjE) meson

lemma basic_off: "basic R \<Longrightarrow> R s (fst (off ev hl s))"
  unfolding basic_def by (elim conjE) meson

lemma taggedD: "tagged j R \<Longrightarrow> emit_tag x = Some j \<Longrightarrow> R s (s\<lparr>trace := trace s @ [x]\<rparr>)"
  unfolding tagged_def by blast

lemma dispatch_sat:
  assumes el: "basic R" and tg: "tagged j R" and k: "call_sat R call"
  shows "dispatch call e p j sp wi fns s = Some s' \<Longrightarrow> R s s'"
proof (induction fns arbitrary: s)
  case Nil
  then show ?case using el by (simp add: basic_refl)
next
  case (Cons f fns)
  let ?args = "arguments s sp wi e p f"
  let ?s0 = "s\<lparr>trace := trace s @ [Invoke (FromEmit j) f ?args]\<rparr>"
  from Cons.prems obtain s1 r where c: "call f ?args ?s0 = Some (s1, r)"
    by (auto simp: Let_def split: option.splits)
  let ?s2 = "s1\<lparr>trace := trace s1 @ [Complete (FromEmit j) f r]\<rparr>"
  have a: "R s ?s0" by (rule taggedD[OF tg]) simp
  have b: "R ?s0 s1" by (rule call_satD[OF k c])
  have d: "R s1 ?s2" by (rule taggedD[OF tg]) simp
  have sd: "R s ?s2" by (rule basic_trans[OF el basic_trans[OF el a b] d])
  show ?case
  proof (cases r)
    case (Inr v)
    with Cons.prems c have "dispatch call e p j sp wi fns ?s2 = Some s'" by (simp add: Let_def)
    then have "R ?s2 s'" by (rule Cons.IH)
    with sd show ?thesis by (rule basic_trans[OF el])
  next
    case (Inl err)
    let ?s3 = "?s2\<lparr>console := console ?s2 @ [HandlerFailure e err]\<rparr>"
    from Inl Cons.prems c have "dispatch call e p j sp wi fns ?s3 = Some s'" by (simp add: Let_def)
    then have g: "R ?s3 s'" by (rule Cons.IH)
    have "R ?s2 ?s3" by (rule basic_console[OF el])
    with sd have "R s ?s3" by (rule basic_trans[OF el])
    then show ?thesis using g by (rule basic_trans[OF el])
  qed
qed

lemma launch_sat:
  assumes el: "basic R" and tg: "tagged j R" and k: "call_sat R call"
  shows "launch h call e p j sp wi fns s = Some (s', tasks) \<Longrightarrow> R s s'"
proof (induction fns arbitrary: s tasks)
  case Nil
  then show ?case using el by (simp add: basic_refl)
next
  case (Cons f fns)
  let ?args = "arguments s sp wi e p f"
  let ?s0 = "s\<lparr>trace := trace s @ [Invoke (FromEmit j) f ?args]\<rparr>"
  from Cons.prems obtain s1 r where c: "call f ?args ?s0 = Some (s1, r)"
    by (auto simp: Let_def split: option.splits)
  let ?s2 = "s1\<lparr>trace := trace s1 @ [Complete (FromEmit j) f r]\<rparr>"
  from Cons.prems c obtain ts where "launch h call e p j sp wi fns ?s2 = Some (s', ts)"
    by (auto simp: Let_def split: option.splits)
  then have g: "R ?s2 s'" by (rule Cons.IH)
  have a: "R s ?s0" by (rule taggedD[OF tg]) simp
  have b: "R ?s0 s1" by (rule call_satD[OF k c])
  have d: "R s1 ?s2" by (rule taggedD[OF tg]) simp
  show ?case
    by (rule basic_trans[OF el basic_trans[OF el basic_trans[OF el a b] d] g])
qed

text \<open>What a call of \<open>emit\<close> or \<open>emitAsync\<close> that reaches its loop does.\<close>

lemma emit_with_cases:
  assumes "emit_with call ev p s = Some (s', r)"
  obtains (invalid) err where "validateEventName ev = Inl err" "s' = s" "r = Inl err"
    | (nobody) e where "ev = Str e" "map_get (listenersMap s) e = None"
        "map_get (listenersMap s) ''*'' = None" "s' = s" "r = Inr ()"
    | (loop) e where "ev = Str e" "r = Inr ()"
        "map_get (listenersMap s) e \<noteq> None \<or> map_get (listenersMap s) ''*'' \<noteq> None"
        "dispatch call e p (emitSeq s) (map_get (listenersMap s) e)
           (map_get (listenersMap s) ''*'') (delivery s e) (s\<lparr>emitSeq := Suc (emitSeq s)\<rparr>) = Some s'"
proof (cases ev)
  case (Str e)
  show ?thesis
  proof (cases "map_get (listenersMap s) e = None \<and> map_get (listenersMap s) ''*'' = None")
    case True
    with assms Str show ?thesis
      by (intro nobody[of e]) (auto simp: emit_with_def validateEventName_def)
  next
    case False
    with assms Str show ?thesis
      by (intro loop[of e]) (auto simp: emit_with_def validateEventName_def Let_def split: option.splits)
  qed
qed (use assms in \<open>auto simp: emit_with_def validateEventName_def intro: invalid\<close>)

lemma emitAsync_with_cases:
  assumes "emitAsync_with h call ev p s = Some (s', r)"
  obtains (invalid) err where "validateEventName ev = Inl err" "s' = s" "r = Rejected err"
    | (nobody) e where "ev = Str e" "map_get (listenersMap s) e = None"
        "map_get (listenersMap s) ''*'' = None" "s' = s" "r = Fulfilled []"
    | (loop) e tasks where "ev = Str e" "r = allSettled tasks"
        "map_get (listenersMap s) e \<noteq> None \<or> map_get (listenersMap s) ''*'' \<noteq> None"
        "launch h call e p (emitSeq s) (map_get (listenersMap s) e)
           (map_get (listenersMap s) ''*'') (delivery s e) (s\<lparr>emitSeq := Suc (emitSeq s)\<rparr>) = Some (s', tasks)"
proof (cases ev)
  case (Str e)
  show ?thesis
  proof (cases "map_get (listenersMap s) e = None \<and> map_get (listenersMap s) ''*'' = None")
    case True
    with assms Str show ?thesis
      by (intro nobody[of e]) (auto simp: emitAsync_with_def validateEventName_def)
  next
    case False
    with assms Str obtain tasks where
      "launch h call e p (emitSeq s) (map_get (listenersMap s) e)
           (map_get (listenersMap s) ''*'') (delivery s e) (s\<lparr>emitSeq := Suc (emitSeq s)\<rparr>) = Some (s', tasks)"
      "r = allSettled tasks"
      by (auto simp: emitAsync_with_def validateEventName_def Let_def split: option.splits)
    with False Str show ?thesis by (intro loop[of e tasks]) auto
  qed
qed (use assms in \<open>auto simp: emitAsync_with_def validateEventName_def intro: invalid\<close>)

lemma elementary_basic: "elementary R \<Longrightarrow> basic R"
  by (simp add: elementary_def)

lemma elementary_tagged: "elementary R \<Longrightarrow> tagged j R"
  by (simp add: elementary_def)

lemma elementary_emitSeq: "elementary R \<Longrightarrow> R s (s\<lparr>emitSeq := Suc (emitSeq s)\<rparr>)"
  by (simp add: elementary_def)

lemma emit_with_sat:
  assumes el: "elementary R" and k: "call_sat R call"
    and x: "emit_with call ev p s = Some (s', r)"
  shows "R s s'"
  using x
proof (cases rule: emit_with_cases)
  case (loop e)
  from loop(4) have "R (s\<lparr>emitSeq := Suc (emitSeq s)\<rparr>) s'"
    by (rule dispatch_sat[OF elementary_basic[OF el] elementary_tagged[OF el] k])
  with elementary_emitSeq[OF el] show ?thesis by (rule basic_trans[OF elementary_basic[OF el]])
qed (use el in \<open>simp_all add: basic_refl elementary_basic\<close>)

lemma emitAsync_with_sat:
  assumes el: "elementary R" and k: "call_sat R call"
    and x: "emitAsync_with h call ev p s = Some (s', r)"
  shows "R s s'"
  using x
proof (cases rule: emitAsync_with_cases)
  case (loop e tasks)
  from loop(4) have "R (s\<lparr>emitSeq := Suc (emitSeq s)\<rparr>) s'"
    by (rule launch_sat[OF elementary_basic[OF el] elementary_tagged[OF el] k])
  with elementary_emitSeq[OF el] show ?thesis by (rule basic_trans[OF elementary_basic[OF el]])
qed (use el in \<open>simp_all add: basic_refl elementary_basic\<close>)

text \<open>What an application of a wrapper does.\<close>

lemma wrapper_call_cases:
  assumes "wrapper_call call w args s = Some (s', r)"
  obtains (spent) c where "wrappers s w = Some c" "completed c" "s' = s" "r = Inr Undefined"
    | (fresh) c s2 r2 where "wrappers s w = Some c" "\<not> completed c"
        "call (wHandler c) [argument args 0, argument args 1]
           (s\<lparr>wrappers := (wrappers s)(w := Some (c\<lparr>completed := True\<rparr>)),
              trace := trace s @ [Invoke (FromWrapper w) (wHandler c) [argument args 0, argument args 1]]\<rparr>)
         = Some (s2, r2)"
        "s' = fst (off (Str (wEvent c)) (Fn (Wrapper w))
                  (s2\<lparr>trace := trace s2 @ [Complete (FromWrapper w) (wHandler c) r2]\<rparr>))"
proof -
  from assms obtain c where c: "wrappers s w = Some c"
    by (auto simp: wrapper_call_def split: option.splits)
  show ?thesis
  proof (cases "completed c")
    case True
    with assms c show ?thesis by (intro spent[of c]) (auto simp: wrapper_call_def)
  next
    case False
    let ?a = "[argument args 0, argument args 1]"
    let ?s1 = "s\<lparr>wrappers := (wrappers s)(w := Some (c\<lparr>completed := True\<rparr>)),
                  trace := trace s @ [Invoke (FromWrapper w) (wHandler c) ?a]\<rparr>"
    from assms c False obtain s2 r2 where c2: "call (wHandler c) ?a ?s1 = Some (s2, r2)"
      by (auto simp: wrapper_call_def Let_def split: option.splits)
    from assms c False c2
    have "s' = fst (off (Str (wEvent c)) (Fn (Wrapper w))
                  (s2\<lparr>trace := trace s2 @ [Complete (FromWrapper w) (wHandler c) r2]\<rparr>))"
      by (auto simp: wrapper_call_def Let_def split: prod.splits sum.splits)
    with c False c2 show ?thesis by (rule fresh)
  qed
qed

lemma wrapper_call_sat:
  assumes el: "basic R" and k: "call_sat R call"
    and x: "wrapper_call call w args s = Some (s', r)"
  shows "R s s'"
  using x
proof (cases rule: wrapper_call_cases)
  case (spent c)
  then show ?thesis using el by (simp add: basic_refl)
next
  case (fresh c s2 r2)
  let ?a = "[argument args 0, argument args 1]"
  let ?s1 = "s\<lparr>wrappers := (wrappers s)(w := Some (c\<lparr>completed := True\<rparr>)),
                trace := trace s @ [Invoke (FromWrapper w) (wHandler c) ?a]\<rparr>"
  let ?s2 = "s2\<lparr>trace := trace s2 @ [Complete (FromWrapper w) (wHandler c) r2]\<rparr>"
  have a: "R s ?s1" by (rule basic_latch[OF el fresh(1) fresh(2)])
  have b: "R ?s1 s2" by (rule call_satD[OF k fresh(3)])
  have d: "R s2 ?s2" by (rule basic_complete[OF el])
  have e: "R ?s2 s'" unfolding fresh(4) by (rule basic_off[OF el])
  show ?thesis
    by (rule basic_trans[OF el basic_trans[OF el basic_trans[OF el a b] d] e])
qed

lemma closed_underI:
  assumes b: "basic R"
    and e: "\<And>call ev p s s' r. call_sat R call \<Longrightarrow> emit_with call ev p s = Some (s', r) \<Longrightarrow> R s s'"
    and a: "\<And>call ev p s s' r. call_sat R call \<Longrightarrow> emitAsync_with h call ev p s = Some (s', r) \<Longrightarrow> R s s'"
    and "\<And>ev hl s. R s (fst (on ev hl s))"
    and "\<And>ev hl s. R s (fst (once ev hl s))"
    and "\<And>x opts s. R s (fst (registerModule h x opts s))"
    and "\<And>i s. R s (cancel i s)"
    and "\<And>s. R s (initialize h s)"
  shows "closed_under h R"
  unfolding closed_under_def
proof (intro conjI allI impI)
  show "\<And>a b c. R a b \<Longrightarrow> R b c \<Longrightarrow> R a c" using b by (rule basic_trans)
  show "\<And>s. R s s" using b by (rule basic_refl)
  show "\<And>ev hl s. R s (fst (off ev hl s))" using b by (rule basic_off)
  show "\<And>call w args s s' r. call_sat R call \<Longrightarrow> wrapper_call call w args s = Some (s', r) \<Longrightarrow> R s s'"
    using b by (rule wrapper_call_sat)
qed (rule assms; assumption)+

lemma closed_under_elementary:
  assumes el: "elementary R"
    and "\<And>ev hl s. R s (fst (on ev hl s))"
    and "\<And>ev hl s. R s (fst (once ev hl s))"
    and "\<And>x opts s. R s (fst (registerModule h x opts s))"
    and "\<And>i s. R s (cancel i s)"
    and "\<And>s. R s (initialize h s)"
  shows "closed_under h R"
proof (rule closed_underI)
  show "basic R" using el by (rule elementary_basic)
  show "\<And>call ev p s s' r. call_sat R call \<Longrightarrow> emit_with call ev p s = Some (s', r) \<Longrightarrow> R s s'"
    using el by (rule emit_with_sat)
  show "\<And>call ev p s s' r. call_sat R call \<Longrightarrow> emitAsync_with h call ev p s = Some (s', r) \<Longrightarrow> R s s'"
    using el by (rule emitAsync_with_sat)
qed (rule assms)+

text \<open>The callbacks of the host and sequences of operations.\<close>

lemma host_closedD:
  assumes "host_closed h R"
  shows "closed_under h R"
    and "R s (s\<lparr>console := console s @ [l]\<rparr>)"
    and "R s (attachMinecraftEvents h (s\<lparr>worldReady := True\<rparr>))"
    and "R s (fst (importPhase h ph s))"
  using assms unfolding host_closed_def by blast+

lemma exec_op_sat:
  assumes hc: "host_closed h R" and x: "exec_op h prog n x s = Some s'"
  shows "R s s'"
proof -
  note c = host_closedD(1)[OF hc]
  note k = invoke_sat[OF c, of prog n]
  note tr = closed_under_trans[OF c]
  show ?thesis
  proof (cases x)
    case (App a)
    with x obtain r where "exec_with h (invoke h prog n) a s = Some (s', r)"
      by (auto split: option.splits)
    then show ?thesis by (rule exec_with_sat[OF c k])
  next
    case (WorldLoad event)
    show ?thesis
    proof (cases "\<not> worldLoadSubscribed s \<or> worldReady s")
      case True
      with x WorldLoad have "s' = s" by (simp add: worldLoad_with_def)
      then show ?thesis using c by (simp add: closed_under_refl)
    next
      case False
      let ?s2 = "attachMinecraftEvents h (s\<lparr>worldReady := True\<rparr>)"
      from x WorldLoad False obtain s3 r where
        e: "emit_with (invoke h prog n) (Str ''worldLoad'') event ?s2 = Some (s3, r)"
        by (auto simp: worldLoad_with_def Let_def split: option.splits)
      have a: "R s ?s2" by (rule host_closedD(3)[OF hc])
      have b: "R ?s2 s3" by (rule closed_under_emit[OF c k e])
      from x WorldLoad False e
      have "s' = s3\<lparr>console := console s3 @ [WorldLoadFailure (projl r)]\<rparr>
            \<or> s' = fst (importPhase h RUNTIME s3)"
        by (auto simp: worldLoad_with_def Let_def split: sum.splits)
      then have "R s3 s'"
        using host_closedD(2)[OF hc] host_closedD(4)[OF hc] by auto
      with tr[OF a b] show ?thesis by (rule tr)
    qed
  next
    case (HostEvent name payload)
    show ?thesis
    proof (cases "name \<in> set (attached s)")
      case True
      with x HostEvent obtain r where "emit_with (invoke h prog n) (Str name) payload s = Some (s', r)"
        by (auto simp: hostEvent_with_def split: option.splits)
      then show ?thesis by (rule closed_under_emit[OF c k])
    next
      case False
      with x HostEvent have "s' = s" by (simp add: hostEvent_with_def)
      then show ?thesis using c by (simp add: closed_under_refl)
    qed
  next
    case (WatchdogTerminate event now)
    show ?thesis
    proof (cases "watchdogSubscribed s")
      case False
      with x WatchdogTerminate have "s' = s" by (simp add: watchdogTerminate_with_def)
      then show ?thesis using c by (simp add: closed_under_refl)
    next
      case True
      from x WatchdogTerminate True obtain l pl s2 r where
        e: "emit_with (invoke h prog n) (Str ''shutdown'') pl (s\<lparr>console := console s @ [l]\<rparr>) = Some (s2, r)"
        and s': "s' = s2\<lparr>console := console s2 @ [ShutdownEmitFailure (projl r)]\<rparr> \<or> s' = s2"
        by (auto simp: watchdogTerminate_with_def Let_def split: option.splits sum.splits)
      have a: "R s (s\<lparr>console := console s @ [l]\<rparr>)" by (rule host_closedD(2)[OF hc])
      have b: "R (s\<lparr>console := console s @ [l]\<rparr>) s2" by (rule closed_under_emit[OF c k e])
      from s' have "R s2 s'"
        using host_closedD(2)[OF hc] closed_under_refl[OF c] by auto
      with tr[OF a b] show ?thesis by (rule tr)
    qed
  qed
qed

lemma run_ops_sat:
  assumes hc: "host_closed h R"
  shows "run_ops h prog n xs s = Some s' \<Longrightarrow> R s s'"
proof (induction xs arbitrary: s)
  case Nil
  then show ?case using closed_under_refl[OF host_closedD(1)[OF hc]] by simp
next
  case (Cons x xs)
  from Cons.prems obtain s1 where e: "exec_op h prog n x s = Some s1"
    and r: "run_ops h prog n xs s1 = Some s'"
    by (auto split: option.splits)
  from exec_op_sat[OF hc e] Cons.IH[OF r] show ?case
    by (rule closed_under_trans[OF host_closedD(1)[OF hc]])
qed

section \<open>What each operation leaves alone\<close>

lemma off_frame [simp]:
  "trace (fst (off ev hl s)) = trace s"
  "emitSeq (fst (off ev hl s)) = emitSeq s"
  "wrappers (fst (off ev hl s)) = wrappers s"
  "nextWrapper (fst (off ev hl s)) = nextWrapper s"
  "console (fst (off ev hl s)) = console s"
  "importCalls (fst (off ev hl s)) = importCalls s"
  "importedModules (fst (off ev hl s)) = importedModules s"
  "nextSet (fst (off ev hl s)) = nextSet s"
  by (auto simp: off_def Let_def split: sum.splits option.splits)

lemma on_frame [simp]:
  "trace (fst (on ev hl s)) = trace s"
  "emitSeq (fst (on ev hl s)) = emitSeq s"
  "wrappers (fst (on ev hl s)) = wrappers s"
  "nextWrapper (fst (on ev hl s)) = nextWrapper s"
  "importCalls (fst (on ev hl s)) = importCalls s"
  "importedModules (fst (on ev hl s)) = importedModules s"
  by (auto simp: on_def Let_def split: sum.splits option.splits)

lemma on_console: "\<exists>zs. console (fst (on ev hl s)) = console s @ zs"
  by (auto simp: on_def Let_def split: sum.splits option.splits)

lemma once_frame [simp]:
  "trace (fst (once ev hl s)) = trace s"
  "emitSeq (fst (once ev hl s)) = emitSeq s"
  "importCalls (fst (once ev hl s)) = importCalls s"
  "importedModules (fst (once ev hl s)) = importedModules s"
  by (auto simp: once_def Let_def split: sum.splits)

lemma once_console: "\<exists>zs. console (fst (once ev hl s)) = console s @ zs"
  by (auto simp: once_def on_def Let_def split: sum.splits option.splits)

lemma importModule_frame [simp]:
  "trace (fst (importModule h x s)) = trace s"
  "emitSeq (fst (importModule h x s)) = emitSeq s"
  "wrappers (fst (importModule h x s)) = wrappers s"
  "nextWrapper (fst (importModule h x s)) = nextWrapper s"
  "listenersMap (fst (importModule h x s)) = listenersMap s"
  "setStore (fst (importModule h x s)) = setStore s"
  "nextSet (fst (importModule h x s)) = nextSet s"
  by (auto simp: importModule_def Let_def split: settle.splits)

lemma importModule_console: "\<exists>zs. console (fst (importModule h x s)) = console s @ zs"
  by (auto simp: importModule_def Let_def split: settle.splits)

lemma importAll_step:
  "fst (importAll h (x # xs) s) = fst (importAll h xs (fst (importModule h x s)))"
  by (simp add: split_beta)

lemma importAll_proj:
  assumes "\<And>x s. g (fst (importModule h x s)) = g s"
  shows "g (fst (importAll h xs s)) = g s"
proof (induction xs arbitrary: s)
  case Nil
  show ?case by simp
next
  case (Cons x xs)
  show ?case unfolding importAll_step by (simp add: Cons.IH assms)
qed

lemma importAll_frame [simp]:
  "trace (fst (importAll h xs s)) = trace s"
  "emitSeq (fst (importAll h xs s)) = emitSeq s"
  "wrappers (fst (importAll h xs s)) = wrappers s"
  "nextWrapper (fst (importAll h xs s)) = nextWrapper s"
  "listenersMap (fst (importAll h xs s)) = listenersMap s"
  "setStore (fst (importAll h xs s)) = setStore s"
  "nextSet (fst (importAll h xs s)) = nextSet s"
  by (rule importAll_proj, simp)+

lemma importAll_console: "\<exists>zs. console (fst (importAll h xs s)) = console s @ zs"
proof (induction xs arbitrary: s)
  case Nil
  show ?case by simp
next
  case (Cons x xs)
  note e = importAll_step
  obtain zs where "console (fst (importModule h x s)) = console s @ zs"
    using importModule_console by blast
  moreover obtain zs' where "console (fst (importAll h xs (fst (importModule h x s))))
      = console (fst (importModule h x s)) @ zs'"
    using Cons.IH by blast
  ultimately show ?case unfolding e by simp
qed

lemma importPhase_frame [simp]:
  "trace (fst (importPhase h ph s)) = trace s"
  "emitSeq (fst (importPhase h ph s)) = emitSeq s"
  "wrappers (fst (importPhase h ph s)) = wrappers s"
  "nextWrapper (fst (importPhase h ph s)) = nextWrapper s"
  "listenersMap (fst (importPhase h ph s)) = listenersMap s"
  "setStore (fst (importPhase h ph s)) = setStore s"
  "nextSet (fst (importPhase h ph s)) = nextSet s"
  by (simp_all add: importPhase_def Let_def split_beta)

lemma importPhase_console: "\<exists>zs. console (fst (importPhase h ph s)) = console s @ zs"
proof -
  let ?s2 = "(if ph = RUNTIME
      then (if ph = BOOTSTRAP then s\<lparr>bootstrapCompleted := True\<rparr> else s)\<lparr>runtimeCompleted := True\<rparr>
      else (if ph = BOOTSTRAP then s\<lparr>bootstrapCompleted := True\<rparr> else s))"
  have c: "console ?s2 = console s" by simp
  obtain zs where "console (fst (importAll h
      (map (\<lambda>entry. fst (snd entry)) (filter (\<lambda>entry. snd (snd entry) = ph) (moduleQueue s))) ?s2))
      = console ?s2 @ zs"
    using importAll_console by blast
  with c show ?thesis
    by (auto simp: importPhase_def Let_def split_beta)
qed

text \<open>What a call of \<open>registerModule\<close> does.\<close>

lemma registerModule_cases:
  obtains (throws) err where "registerModule h x opts s = (s, Inl err)"
    | (queued) x' y where "validateModuleSpecifier x = Inr x'"
        "resolveModuleSpecifier h x' (anchor opts) = Inr y"
        "\<not> gate s (normalizePhase (phase opts) (beforeLoad opts))"
        "registerModule h x opts s =
           (s\<lparr>moduleQueue := moduleQueue s @ [(nextEntry s, y, normalizePhase (phase opts) (beforeLoad opts))],
              nextEntry := Suc (nextEntry s)\<rparr>, Inr (nextEntry s))"
    | (loaded) x' y where "validateModuleSpecifier x = Inr x'"
        "resolveModuleSpecifier h x' (anchor opts) = Inr y"
        "gate s (normalizePhase (phase opts) (beforeLoad opts))"
        "registerModule h x opts s =
           (fst (importModule h y
              (s\<lparr>moduleQueue := moduleQueue s @ [(nextEntry s, y, normalizePhase (phase opts) (beforeLoad opts))],
                 nextEntry := Suc (nextEntry s)\<rparr>)), Inr (nextEntry s))"
proof (cases "validateModuleSpecifier x")
  case (Inl err)
  then have "registerModule h x opts s = (s, Inl err)" by (simp add: registerModule_def)
  then show ?thesis by (rule throws)
next
  case (Inr x')
  note v = this
  show ?thesis
  proof (cases "resolveModuleSpecifier h x' (anchor opts)")
    case (Inl err)
    with v have "registerModule h x opts s = (s, Inl err)" by (simp add: registerModule_def)
    then show ?thesis by (rule throws)
  next
    case (Inr y)
    show ?thesis
    proof (cases "gate s (normalizePhase (phase opts) (beforeLoad opts))")
      case True
      with v Inr show ?thesis
        by (intro loaded[of x' y]) (auto simp: registerModule_def Let_def gate_def split: phase.splits)
    next
      case False
      with v Inr show ?thesis
        by (intro queued[of x' y]) (auto simp: registerModule_def Let_def gate_def split: phase.splits)
    qed
  qed
qed

lemma registerModule_frame [simp]:
  "trace (fst (registerModule h x opts s)) = trace s"
  "emitSeq (fst (registerModule h x opts s)) = emitSeq s"
  "wrappers (fst (registerModule h x opts s)) = wrappers s"
  "nextWrapper (fst (registerModule h x opts s)) = nextWrapper s"
  "listenersMap (fst (registerModule h x opts s)) = listenersMap s"
  "setStore (fst (registerModule h x opts s)) = setStore s"
  "nextSet (fst (registerModule h x opts s)) = nextSet s"
  by (cases rule: registerModule_cases[of h x opts s]; simp)+

lemma registerModule_console: "\<exists>zs. console (fst (registerModule h x opts s)) = console s @ zs"
proof (cases rule: registerModule_cases[of h x opts s])
  case (loaded x' y)
  let ?q = "s\<lparr>moduleQueue := moduleQueue s @ [(nextEntry s, y, normalizePhase (phase opts) (beforeLoad opts))],
               nextEntry := Suc (nextEntry s)\<rparr>"
  from importModule_console[of h y ?q] loaded(4) show ?thesis by simp
qed simp_all

lemma cancel_frame [simp]:
  "trace (cancel i s) = trace s"
  "emitSeq (cancel i s) = emitSeq s"
  "wrappers (cancel i s) = wrappers s"
  "nextWrapper (cancel i s) = nextWrapper s"
  "listenersMap (cancel i s) = listenersMap s"
  "setStore (cancel i s) = setStore s"
  "nextSet (cancel i s) = nextSet s"
  "console (cancel i s) = console s"
  "importCalls (cancel i s) = importCalls s"
  "importedModules (cancel i s) = importedModules s"
  by (simp_all add: cancel_def)

lemma initialize_frame [simp]:
  "trace (initialize h s) = trace s"
  "emitSeq (initialize h s) = emitSeq s"
  "wrappers (initialize h s) = wrappers s"
  "nextWrapper (initialize h s) = nextWrapper s"
  "listenersMap (initialize h s) = listenersMap s"
  "setStore (initialize h s) = setStore s"
  "nextSet (initialize h s) = nextSet s"
  by (simp_all add: initialize_def Let_def setupWatchdogGuard_def)

lemma initialize_console: "\<exists>zs. console (initialize h s) = console s @ zs"
proof (cases "initialized s")
  case True
  then show ?thesis by (simp add: initialize_def)
next
  case False
  obtain zs where "console (fst (importPhase h BOOTSTRAP (setupWatchdogGuard h (s\<lparr>initialized := True\<rparr>))))
      = console (setupWatchdogGuard h (s\<lparr>initialized := True\<rparr>)) @ zs"
    using importPhase_console by blast
  with False show ?thesis by (simp add: initialize_def Let_def setupWatchdogGuard_def)
qed

lemma attach_frame [simp]:
  "trace (attachMinecraftEvents h s) = trace s"
  "emitSeq (attachMinecraftEvents h s) = emitSeq s"
  "wrappers (attachMinecraftEvents h s) = wrappers s"
  "nextWrapper (attachMinecraftEvents h s) = nextWrapper s"
  "listenersMap (attachMinecraftEvents h s) = listenersMap s"
  "setStore (attachMinecraftEvents h s) = setStore s"
  "nextSet (attachMinecraftEvents h s) = nextSet s"
  "console (attachMinecraftEvents h s) = console s"
  "importCalls (attachMinecraftEvents h s) = importCalls s"
  "importedModules (attachMinecraftEvents h s) = importedModules s"
  by (simp_all add: attachMinecraftEvents_def)

section \<open>The record only grows, and a call writes under its own number\<close>

lemma later_same: "trace s' = trace s \<Longrightarrow> emitSeq s' = emitSeq s \<Longrightarrow> later s s'"
  by (simp add: later_def tags_from_def)

lemma later_refl: "later s s"
  by (simp add: later_same)

lemma later_trans:
  assumes "later a b" and "later b c"
  shows "later a c"
proof -
  from assms(1) obtain ys where ys: "trace b = trace a @ ys" "tags_from (emitSeq a) ys"
    and ab: "emitSeq a \<le> emitSeq b"
    by (auto simp: later_def)
  from assms(2) obtain zs where zs: "trace c = trace b @ zs" "tags_from (emitSeq b) zs"
    and bc: "emitSeq b \<le> emitSeq c"
    by (auto simp: later_def)
  from zs(2) ab have "tags_from (emitSeq a) zs"
    unfolding tags_from_def by (meson le_trans)
  with ys(2) have "tags_from (emitSeq a) (ys @ zs)" by (auto simp: tags_from_def)
  moreover from ys(1) zs(1) have "trace c = trace a @ (ys @ zs)" by simp
  ultimately show ?thesis using ab bc unfolding later_def by (metis le_trans)
qed

lemma later_untagged:
  "emit_tag x = None \<Longrightarrow> emitSeq s' = emitSeq s \<Longrightarrow> trace s' = trace s @ [x] \<Longrightarrow> later s s'"
  by (simp add: later_def tags_from_def)

lemma basic_later: "basic later"
  unfolding basic_def
proof (intro conjI allI impI)
  show "\<And>a b c. later a b \<Longrightarrow> later b c \<Longrightarrow> later a c" by (rule later_trans)
qed (auto simp: later_def tags_from_def)

lemma within_refl: "within k s s"
  by (simp add: within_def)

lemma within_trans:
  assumes "within k a b" and "within k b c"
  shows "within k a c"
proof -
  from assms(1) obtain ys where ys: "trace b = trace a @ ys"
      "\<forall>x \<in> set ys. \<forall>j. emit_tag x = Some j \<longrightarrow> j = k \<or> emitSeq a \<le> j"
    and ab: "emitSeq a \<le> emitSeq b"
    by (auto simp: within_def)
  from assms(2) obtain zs where zs: "trace c = trace b @ zs"
      "\<forall>x \<in> set zs. \<forall>j. emit_tag x = Some j \<longrightarrow> j = k \<or> emitSeq b \<le> j"
    and bc: "emitSeq b \<le> emitSeq c"
    by (auto simp: within_def)
  from zs(2) ab have "\<forall>x \<in> set zs. \<forall>j. emit_tag x = Some j \<longrightarrow> j = k \<or> emitSeq a \<le> j"
    by (meson le_trans)
  with ys(2) have "\<forall>x \<in> set (ys @ zs). \<forall>j. emit_tag x = Some j \<longrightarrow> j = k \<or> emitSeq a \<le> j"
    by auto
  moreover from ys(1) zs(1) have "trace c = trace a @ (ys @ zs)" by simp
  ultimately show ?thesis using ab bc unfolding within_def by (metis le_trans)
qed

lemma later_within: "later s s' \<Longrightarrow> within k s s'"
  by (auto simp: later_def within_def tags_from_def)

lemma basic_within: "basic (within k)"
  unfolding basic_def
proof (intro conjI allI impI)
  show "\<And>a b c. within k a b \<Longrightarrow> within k b c \<Longrightarrow> within k a c" by (rule within_trans)
qed (simp_all add: within_def)

lemma tagged_within: "tagged k (within k)"
  by (simp add: tagged_def within_def)

text \<open>
  A loop that runs under the number \<open>k\<close>, given out before, leaves a record whose
  entries carry \<open>k\<close> or a number given out since the call began.
\<close>

lemma within_later:
  assumes "within (emitSeq s) (s\<lparr>emitSeq := Suc (emitSeq s)\<rparr>) s'"
  shows "later s s'"
proof -
  from assms obtain ys where ys: "trace s' = trace s @ ys"
      "\<forall>x \<in> set ys. \<forall>j. emit_tag x = Some j \<longrightarrow> j = emitSeq s \<or> Suc (emitSeq s) \<le> j"
    and le: "Suc (emitSeq s) \<le> emitSeq s'"
    by (auto simp: within_def)
  from ys(2) have "tags_from (emitSeq s) ys"
    unfolding tags_from_def by (metis Suc_leD order_refl)
  with ys(1) le show ?thesis by (auto simp: later_def)
qed

lemma emit_with_later:
  assumes k: "call_sat later call" and x: "emit_with call ev p s = Some (s', r)"
  shows "later s s'"
  using x
proof (cases rule: emit_with_cases)
  case (loop e)
  have "call_sat (within (emitSeq s)) call"
    using k by (rule call_sat_mono[rotated]) (rule later_within)
  with loop(4) have "within (emitSeq s) (s\<lparr>emitSeq := Suc (emitSeq s)\<rparr>) s'"
    by (intro dispatch_sat[OF basic_within tagged_within])
  then show ?thesis by (rule within_later)
qed (simp_all add: later_refl)

lemma emitAsync_with_later:
  assumes k: "call_sat later call" and x: "emitAsync_with h call ev p s = Some (s', r)"
  shows "later s s'"
  using x
proof (cases rule: emitAsync_with_cases)
  case (loop e tasks)
  have "call_sat (within (emitSeq s)) call"
    using k by (rule call_sat_mono[rotated]) (rule later_within)
  with loop(4) have "within (emitSeq s) (s\<lparr>emitSeq := Suc (emitSeq s)\<rparr>) s'"
    by (intro launch_sat[OF basic_within tagged_within])
  then show ?thesis by (rule within_later)
qed (simp_all add: later_refl)

lemma closed_under_later: "closed_under h later"
  by (rule closed_underI[OF basic_later emit_with_later emitAsync_with_later])
     (simp_all add: later_same)


section \<open>Running the examples\<close>

text \<open>The definitions to unfold when an example is run on a given registry.\<close>

lemmas registry_eval = listeners_def listenerCount_def on_def once_def off_def validateEventName_def
  validateHandler_def Let_def initial_def set_add_def set_delete_def delivery_def members_def

lemmas delivery_eval = emit_def emit_with_def arguments_def shouldSendEventName_def wrapper_call_def
  argument_def thrown_def added_def logged_def reached_def applied_def given_def

section \<open>The console only gains lines\<close>

lemma grows_same: "console s' = console s \<Longrightarrow> grows s s'"
  by (simp add: grows_def)

lemma elementary_grows: "elementary grows"
  by (auto simp: elementary_def basic_def tagged_def grows_def)

lemma closed_under_grows: "closed_under h grows"
proof (rule closed_under_elementary[OF elementary_grows])
  show "\<And>ev hl s. grows s (fst (on ev hl s))" unfolding grows_def by (rule on_console)
  show "\<And>ev hl s. grows s (fst (once ev hl s))" unfolding grows_def by (rule once_console)
  show "\<And>x opts s. grows s (fst (registerModule h x opts s))"
    unfolding grows_def by (rule registerModule_console)
  show "\<And>i s. grows s (cancel i s)" by (simp add: grows_same)
  show "\<And>s. grows s (initialize h s)" unfolding grows_def by (rule initialize_console)
qed

lemma invoke_grows: "call_sat grows (invoke h prog n)"
  by (rule invoke_sat[OF closed_under_grows])

section \<open>What one call of emit writes to the record\<close>

lemma dispatched_append [simp]: "dispatched k (xs @ ys) = dispatched k xs @ dispatched k ys"
  by (induction k xs rule: dispatched.induct) auto

lemma completions_append [simp]: "completions k (xs @ ys) = completions k xs @ completions k ys"
  by (induction k xs rule: completions.induct) auto


lemma tags_from_dispatched: "tags_from m ys \<Longrightarrow> k < m \<Longrightarrow> dispatched k ys = []"
  by (induction k ys rule: dispatched.induct) (auto simp: tags_from_def)

lemma tags_from_completions: "tags_from m ys \<Longrightarrow> k < m \<Longrightarrow> completions k ys = []"
  by (induction k ys rule: completions.induct) (auto simp: tags_from_def)


text \<open>One round of the loop of \<open>emit\<close>.\<close>

lemma dispatch_Cons:
  assumes "dispatch call e p j sp wi (f # fns) s = Some s'"
  obtains s1 r s2 where
    "call f (arguments s sp wi e p f)
       (s\<lparr>trace := trace s @ [Invoke (FromEmit j) f (arguments s sp wi e p f)]\<rparr>) = Some (s1, r)"
    "dispatch call e p j sp wi fns s2 = Some s'"
    "trace s2 = trace s1 @ [Complete (FromEmit j) f r]"
    "console s2 = console s1 @ (case r of Inl err \<Rightarrow> [HandlerFailure e err] | Inr v \<Rightarrow> [])"
    "emitSeq s2 = emitSeq s1" "setStore s2 = setStore s1" "wrappers s2 = wrappers s1"
proof -
  let ?args = "arguments s sp wi e p f"
  let ?s0 = "s\<lparr>trace := trace s @ [Invoke (FromEmit j) f ?args]\<rparr>"
  from assms obtain s1 r where c: "call f ?args ?s0 = Some (s1, r)"
    by (auto simp: Let_def split: option.splits)
  let ?s2 = "s1\<lparr>trace := trace s1 @ [Complete (FromEmit j) f r]\<rparr>"
  show ?thesis
  proof (cases r)
    case (Inr v)
    with assms c have "dispatch call e p j sp wi fns ?s2 = Some s'" by (simp add: Let_def)
    with c Inr show ?thesis by (intro that[of s1 r ?s2]) simp_all
  next
    case (Inl err)
    let ?s3 = "?s2\<lparr>console := console ?s2 @ [HandlerFailure e err]\<rparr>"
    from Inl assms c have "dispatch call e p j sp wi fns ?s3 = Some s'" by (simp add: Let_def)
    with c Inl show ?thesis by (intro that[of s1 r ?s3]) simp_all
  qed
qed

lemma arguments_forms: "arguments s sp wi e p f = [p] \<or> arguments s sp wi e p f = [p, Str e]"
  by (simp add: arguments_def)

lemma arguments_cong: "setStore s' = setStore s \<Longrightarrow> arguments s' sp wi e p f = arguments s sp wi e p f"
  by (simp add: arguments_def shouldSendEventName_def split: option.splits)

text \<open>
  The loop applies each member of the local set once, in order, whatever the
  listeners do: the entries the listeners add carry other numbers.
\<close>

lemma dispatch_record:
  assumes k: "call_sat later call"
  shows "j < emitSeq s \<Longrightarrow> dispatch call e p j sp wi fns s = Some s' \<Longrightarrow>
    \<exists>ys. trace s' = trace s @ ys \<and> map fst (dispatched j ys) = fns
         \<and> map fst (completions j ys) = fns
         \<and> (\<forall>x \<in> set (dispatched j ys). snd x = [p] \<or> snd x = [p, Str e])"
proof (induction fns arbitrary: s)
  case Nil
  then show ?case by simp
next
  case (Cons f fns)
  let ?args = "arguments s sp wi e p f"
  let ?s0 = "s\<lparr>trace := trace s @ [Invoke (FromEmit j) f ?args]\<rparr>"
  from Cons.prems(2) obtain s1 r s2 where
    c: "call f ?args ?s0 = Some (s1, r)"
    and d: "dispatch call e p j sp wi fns s2 = Some s'"
    and t2: "trace s2 = trace s1 @ [Complete (FromEmit j) f r]"
    and q2: "emitSeq s2 = emitSeq s1"
    by (rule dispatch_Cons)
  from call_satD[OF k c] obtain zs where zs: "trace s1 = trace ?s0 @ zs"
      "tags_from (emitSeq ?s0) zs" and le: "emitSeq ?s0 \<le> emitSeq s1"
    by (auto simp: later_def)
  from zs(2) Cons.prems(1) have z: "dispatched j zs = []" "completions j zs = []"
    by (simp_all add: tags_from_dispatched tags_from_completions)
  from le q2 Cons.prems(1) have "j < emitSeq s2" by simp
  from Cons.IH[OF this d] obtain ys where ys: "trace s' = trace s2 @ ys"
      "map fst (dispatched j ys) = fns" "map fst (completions j ys) = fns"
      "\<forall>x \<in> set (dispatched j ys). snd x = [p] \<or> snd x = [p, Str e]"
    by blast
  let ?all = "Invoke (FromEmit j) f ?args # zs @ Complete (FromEmit j) f r # ys"
  have a1: "trace s' = trace s @ ?all" using ys(1) t2 zs(1) by simp
  have a2: "map fst (dispatched j ?all) = f # fns" using z ys(2) by simp
  have a3: "map fst (completions j ?all) = f # fns" using z ys(3) by simp
  have a4: "\<forall>x \<in> set (dispatched j ?all). snd x = [p] \<or> snd x = [p, Str e]"
    using z ys(4) arguments_forms[of s sp wi e p f] by auto
  show ?case by (rule exI[of _ ?all]) (intro conjI; fact)
qed

section \<open>The rounds of the loop\<close>

lemma ended_fields [simp]:
  "trace (ended k f r q) = trace q @ [Complete (FromEmit k) f r]"
  "emitSeq (ended k f r q) = emitSeq q"
  "setStore (ended k f r q) = setStore q"
  "listenersMap (ended k f r q) = listenersMap q"
  "wrappers (ended k f r q) = wrappers q"
  "nextWrapper (ended k f r q) = nextWrapper q"
  "console (ended k f r q) = console q"
  by (simp_all add: ended_def)

lemma caught_fields [simp]:
  "trace (caught e k f r q) = trace q @ [Complete (FromEmit k) f r]"
  "emitSeq (caught e k f r q) = emitSeq q"
  "setStore (caught e k f r q) = setStore q"
  "listenersMap (caught e k f r q) = listenersMap q"
  "wrappers (caught e k f r q) = wrappers q"
  "nextWrapper (caught e k f r q) = nextWrapper q"
  "console (caught e k f r q) = console q @ (case r of Inl err \<Rightarrow> [HandlerFailure e err] | Inr v \<Rightarrow> [])"
  by (simp_all add: caught_def split: sum.splits)

lemma dispatch_step:
  "dispatch call e p j sp wi (f # fns) s =
     (case call f (arguments s sp wi e p f)
             (s\<lparr>trace := trace s @ [Invoke (FromEmit j) f (arguments s sp wi e p f)]\<rparr>) of
        None \<Rightarrow> None
      | Some (q, r) \<Rightarrow> dispatch call e p j sp wi fns (caught e j f r q))"
  by (simp add: caught_def ended_def Let_def split: option.splits sum.splits)

lemma dispatch_append:
  "dispatch call e p j sp wi (xs @ ys) s =
     (case dispatch call e p j sp wi xs s of
        None \<Rightarrow> None
      | Some sm \<Rightarrow> dispatch call e p j sp wi ys sm)"
proof (induction xs arbitrary: s)
  case Nil
  show ?case by simp
next
  case (Cons x xs)
  show ?case
    unfolding append_Cons dispatch_step
    by (simp add: Cons.IH split: option.splits)
qed

lemma dispatch_snoc:
  "dispatch call e p j sp wi (xs @ [x]) s =
     (case dispatch call e p j sp wi xs s of
        None \<Rightarrow> None
      | Some sm \<Rightarrow>
         (case call x (arguments sm sp wi e p x)
                 (sm\<lparr>trace := trace sm @ [Invoke (FromEmit j) x (arguments sm sp wi e p x)]\<rparr>) of
            None \<Rightarrow> None
          | Some (q, r) \<Rightarrow> Some (caught e j x r q)))"
  unfolding dispatch_append dispatch_step by (simp split: option.splits)

text \<open>What one application leaves in the record.\<close>

lemma call_record:
  assumes k: "call_sat later call" and lt: "j < emitSeq s"
    and c: "call f args (s\<lparr>trace := trace s @ [Invoke (FromEmit j) f args]\<rparr>) = Some (q, r)"
  shows "j < emitSeq q"
    and "\<exists>ys. trace q @ [Complete (FromEmit j) f r] = trace s @ ys \<and> dispatched j ys = [(f, args)]
           \<and> completions j ys = [(f, r)]"
proof -
  let ?s0 = "s\<lparr>trace := trace s @ [Invoke (FromEmit j) f args]\<rparr>"
  from call_satD[OF k c] obtain zs where zs: "trace q = trace ?s0 @ zs"
      "tags_from (emitSeq ?s0) zs" and le: "emitSeq ?s0 \<le> emitSeq q"
    by (auto simp: later_def)
  from zs(2) lt have z: "dispatched j zs = []" "completions j zs = []"
    by (simp_all add: tags_from_dispatched tags_from_completions)
  from le lt show "j < emitSeq q" by simp
  let ?ys = "Invoke (FromEmit j) f args # zs @ [Complete (FromEmit j) f r]"
  have "trace q @ [Complete (FromEmit j) f r] = trace s @ ?ys" using zs(1) by simp
  moreover have "dispatched j ?ys = [(f, args)]" using z by simp
  moreover have "completions j ?ys = [(f, r)]" using z by simp
  ultimately show "\<exists>ys. trace q @ [Complete (FromEmit j) f r] = trace s @ ys
      \<and> dispatched j ys = [(f, args)] \<and> completions j ys = [(f, r)]"
    by blast
qed

lemma call_grows:
  assumes g: "call_sat grows call"
    and c: "call f args (s\<lparr>trace := trace s @ [Invoke (FromEmit j) f args]\<rparr>) = Some (q, r)"
  shows "\<exists>zs. console q = console s @ zs"
  using call_satD[OF g c] by (simp add: grows_def)

text \<open>
  Every round of a loop that returns: the state it starts from, the application it
  makes there, the state it leaves, and its place in the record.
\<close>

lemma dispatch_rounds:
  assumes k: "call_sat later call"
  shows "j < emitSeq s \<Longrightarrow> dispatch call e p j sp wi fns s = Some s' \<Longrightarrow> i < length fns \<Longrightarrow>
    \<exists>sm q r. dispatch call e p j sp wi (take i fns) s = Some sm
       \<and> call (fns ! i) (arguments sm sp wi e p (fns ! i))
            (sm\<lparr>trace := trace sm @ [Invoke (FromEmit j) (fns ! i) (arguments sm sp wi e p (fns ! i))]\<rparr>)
          = Some (q, r)
       \<and> dispatch call e p j sp wi (take (Suc i) fns) s = Some (caught e j (fns ! i) r q)
       \<and> dispatched j (added s s') ! i = (fns ! i, arguments sm sp wi e p (fns ! i))
       \<and> completions j (added s s') ! i = (fns ! i, r)"
proof (induction fns arbitrary: s i)
  case Nil
  then show ?case by simp
next
  case (Cons f fns)
  let ?args = "arguments s sp wi e p f"
  from Cons.prems(2) obtain q0 r0 where
    d0: "call f ?args (s\<lparr>trace := trace s @ [Invoke (FromEmit j) f ?args]\<rparr>) = Some (q0, r0)"
    and rest: "dispatch call e p j sp wi fns (caught e j f r0 q0) = Some s'"
    unfolding dispatch_step by (auto split: option.splits)
  let ?c = "caught e j f r0 q0"
  from call_record(2)[OF k Cons.prems(1) d0] obtain ys where
    ys: "trace ?c = trace s @ ys" "dispatched j ys = [(f, ?args)]" "completions j ys = [(f, r0)]"
    by auto
  have lt2: "j < emitSeq ?c"
    using call_record(1)[OF k Cons.prems(1) d0] by simp
  from dispatch_record[OF k lt2 rest] obtain zs where zs: "trace s' = trace ?c @ zs"
    by blast
  have a: "added s s' = ys @ zs" using ys(1) zs by (simp add: added_def)
  have a2: "added ?c s' = zs" using zs by (simp add: added_def)
  show ?case
  proof (cases i)
    case 0
    have t0: "dispatch call e p j sp wi (take 0 (f # fns)) s = Some s" by simp
    have t1: "dispatch call e p j sp wi (take (Suc 0) (f # fns)) s = Some (caught e j ((f # fns) ! 0) r0 q0)"
      unfolding take_Suc_Cons take_0 dispatch_step using d0 by simp
    have r1: "dispatched j (added s s') ! 0 = ((f # fns) ! 0, arguments s sp wi e p ((f # fns) ! 0))"
      unfolding a using ys(2) by simp
    have r2: "completions j (added s s') ! 0 = ((f # fns) ! 0, r0)"
      unfolding a using ys(3) by simp
    from d0 have d0': "call ((f # fns) ! 0) (arguments s sp wi e p ((f # fns) ! 0))
        (s\<lparr>trace := trace s @ [Invoke (FromEmit j) ((f # fns) ! 0) (arguments s sp wi e p ((f # fns) ! 0))]\<rparr>)
        = Some (q0, r0)"
      by simp
    show ?thesis unfolding 0
      by (rule exI[of _ s], rule exI[of _ q0], rule exI[of _ r0]) (intro conjI t0 d0' t1 r1 r2)
  next
    case (Suc i')
    with Cons.prems(3) have "i' < length fns" by simp
    from Cons.IH[OF lt2 rest this] obtain sm q r where
      b1: "dispatch call e p j sp wi (take i' fns) ?c = Some sm"
      and b2: "call (fns ! i') (arguments sm sp wi e p (fns ! i'))
            (sm\<lparr>trace := trace sm @ [Invoke (FromEmit j) (fns ! i') (arguments sm sp wi e p (fns ! i'))]\<rparr>)
          = Some (q, r)"
      and b3: "dispatch call e p j sp wi (take (Suc i') fns) ?c = Some (caught e j (fns ! i') r q)"
      and b4: "dispatched j (added ?c s') ! i' = (fns ! i', arguments sm sp wi e p (fns ! i'))"
      and b5: "completions j (added ?c s') ! i' = (fns ! i', r)"
      by blast
    have t0: "dispatch call e p j sp wi (take (Suc i') (f # fns)) s = Some sm"
      unfolding take_Suc_Cons dispatch_step using d0 b1 by simp
    have t1: "dispatch call e p j sp wi (take (Suc (Suc i')) (f # fns)) s
        = Some (caught e j ((f # fns) ! Suc i') r q)"
      unfolding take_Suc_Cons dispatch_step using d0 b3 by simp
    have r1: "dispatched j (added s s') ! Suc i'
        = ((f # fns) ! Suc i', arguments sm sp wi e p ((f # fns) ! Suc i'))"
      unfolding a using ys(2) b4[unfolded a2] by simp
    have r2: "completions j (added s s') ! Suc i' = ((f # fns) ! Suc i', r)"
      unfolding a using ys(3) b5[unfolded a2] by simp
    from b2 have b2': "call ((f # fns) ! Suc i') (arguments sm sp wi e p ((f # fns) ! Suc i'))
        (sm\<lparr>trace := trace sm @ [Invoke (FromEmit j) ((f # fns) ! Suc i')
              (arguments sm sp wi e p ((f # fns) ! Suc i'))]\<rparr>) = Some (q, r)"
      by simp
    show ?thesis unfolding Suc
      by (rule exI[of _ sm], rule exI[of _ q], rule exI[of _ r]) (intro conjI t0 b2' t1 r1 r2)
  qed
qed

text \<open>A listener that throws leaves its line among those the loop adds to the console.\<close>

lemma dispatch_logged:
  assumes k: "call_sat later call" and g: "call_sat grows call"
  shows "j < emitSeq s \<Longrightarrow> dispatch call e p j sp wi fns s = Some s' \<Longrightarrow>
    \<exists>zs. console s' = console s @ zs
       \<and> (\<forall>f err. (f, Inl err) \<in> set (completions j (added s s')) \<longrightarrow> HandlerFailure e err \<in> set zs)"
proof (induction fns arbitrary: s)
  case Nil
  then show ?case by (simp add: added_def)
next
  case (Cons f fns)
  let ?args = "arguments s sp wi e p f"
  from Cons.prems(2) obtain q0 r0 where
    d0: "call f ?args (s\<lparr>trace := trace s @ [Invoke (FromEmit j) f ?args]\<rparr>) = Some (q0, r0)"
    and rest: "dispatch call e p j sp wi fns (caught e j f r0 q0) = Some s'"
    unfolding dispatch_step by (auto split: option.splits)
  let ?c = "caught e j f r0 q0"
  from call_record(2)[OF k Cons.prems(1) d0] obtain ys where
    ys: "trace ?c = trace s @ ys" "completions j ys = [(f, r0)]"
    by auto
  have lt2: "j < emitSeq ?c"
    using call_record(1)[OF k Cons.prems(1) d0] by simp
  from Cons.IH[OF lt2 rest] obtain zs where
    zs: "console s' = console ?c @ zs"
      "\<forall>f err. (f, Inl err) \<in> set (completions j (added ?c s')) \<longrightarrow> HandlerFailure e err \<in> set zs"
    by blast
  from dispatch_record[OF k lt2 rest] obtain ts where ts: "trace s' = trace ?c @ ts"
    by blast
  have a: "added s s' = ys @ ts" using ys(1) ts by (simp add: added_def)
  have a2: "added ?c s' = ts" using ts by (simp add: added_def)
  from call_grows[OF g d0] obtain us where us: "console q0 = console s @ us" by blast
  let ?l = "case r0 of Inl err \<Rightarrow> [HandlerFailure e err] | Inr v \<Rightarrow> []"
  have c: "console s' = console s @ (us @ ?l @ zs)" using zs(1) us by simp
  have "\<forall>f' err. (f', Inl err) \<in> set (completions j (added s s'))
      \<longrightarrow> HandlerFailure e err \<in> set (us @ ?l @ zs)"
  proof (intro allI impI)
    fix f' err
    assume "(f', Inl err) \<in> set (completions j (added s s'))"
    then consider "r0 = Inl err" | "(f', Inl err) \<in> set (completions j (added ?c s'))"
      unfolding a a2 using ys(2) by auto
    then show "HandlerFailure e err \<in> set (us @ ?l @ zs)"
    proof cases
      case 1
      then show ?thesis by simp
    next
      case 2
      with zs(2) show ?thesis by simp
    qed
  qed
  with c show ?case by blast
qed

text \<open>The loop returns when each application returns in the state it is made from.\<close>

lemma dispatch_returns:
  "(\<forall>i < length fns. \<forall>sm. dispatch call e p j sp wi (take i fns) s = Some sm
       \<longrightarrow> call (fns ! i) (arguments sm sp wi e p (fns ! i))
             (sm\<lparr>trace := trace sm @ [Invoke (FromEmit j) (fns ! i) (arguments sm sp wi e p (fns ! i))]\<rparr>)
           \<noteq> None)
   \<Longrightarrow> dispatch call e p j sp wi fns s \<noteq> None"
proof (induction fns rule: rev_induct)
  case Nil
  show ?case by simp
next
  case (snoc x xs)
  have "\<forall>i < length xs. \<forall>sm. dispatch call e p j sp wi (take i xs) s = Some sm
       \<longrightarrow> call (xs ! i) (arguments sm sp wi e p (xs ! i))
             (sm\<lparr>trace := trace sm @ [Invoke (FromEmit j) (xs ! i) (arguments sm sp wi e p (xs ! i))]\<rparr>)
           \<noteq> None"
  proof (intro allI impI)
    fix i sm
    assume i: "i < length xs" and r: "dispatch call e p j sp wi (take i xs) s = Some sm"
    from i have e1: "take i (xs @ [x]) = take i xs" and e2: "(xs @ [x]) ! i = xs ! i"
      by (simp_all add: nth_append)
    from i have "i < length (xs @ [x])" by simp
    from snoc.prems[rule_format, OF this, of sm] r
    show "call (xs ! i) (arguments sm sp wi e p (xs ! i))
             (sm\<lparr>trace := trace sm @ [Invoke (FromEmit j) (xs ! i) (arguments sm sp wi e p (xs ! i))]\<rparr>)
           \<noteq> None"
      unfolding e1 e2 by simp
  qed
  from snoc.IH[OF this] obtain sm where sm: "dispatch call e p j sp wi xs s = Some sm" by blast
  have e1: "take (length xs) (xs @ [x]) = xs" and e2: "(xs @ [x]) ! length xs = x" by simp_all
  have "length xs < length (xs @ [x])" by simp
  from snoc.prems[rule_format, OF this, of sm] sm
  have "call x (arguments sm sp wi e p x)
          (sm\<lparr>trace := trace sm @ [Invoke (FromEmit j) x (arguments sm sp wi e p x)]\<rparr>) \<noteq> None"
    unfolding e1 e2 by simp
  then show ?case unfolding dispatch_snoc using sm by (auto split: option.splits)
qed

section \<open>Delivery by emit\<close>

lemma set_add_set [simp]: "set (set_add x xs) = insert x (set xs)"
  by (auto simp: set_add_def)

lemma set_add_distinct: "distinct xs \<Longrightarrow> distinct (set_add x xs)"
  by (simp add: set_add_def)

lemma foldl_set_add_distinct: "distinct acc \<Longrightarrow> distinct (foldl (\<lambda>hs f. set_add f hs) acc xs)"
  by (induction xs arbitrary: acc) (simp_all add: set_add_distinct)

lemma foldl_set_add_set: "set (foldl (\<lambda>hs f. set_add f hs) acc xs) = set acc \<union> set xs"
  by (induction xs arbitrary: acc) auto

lemma foldl_set_add_order:
  "distinct xs \<Longrightarrow> foldl (\<lambda>hs f. set_add f hs) acc xs = acc @ filter (\<lambda>x. x \<notin> set acc) xs"
proof (induction xs arbitrary: acc)
  case Nil
  show ?case by simp
next
  case (Cons x xs)
  from Cons.prems have d: "distinct xs" and nx: "x \<notin> set xs" by simp_all
  show ?case
  proof (cases "x \<in> set acc")
    case True
    with Cons.IH[OF d, of acc] show ?thesis by (simp add: set_add_def)
  next
    case False
    from nx have "filter (\<lambda>y. y \<notin> set (acc @ [x])) xs = filter (\<lambda>y. y \<notin> set acc) xs"
      by (intro filter_cong) auto
    with False Cons.IH[OF d, of "acc @ [x]"] show ?thesis by (simp add: set_add_def)
  qed
qed

lemma delivery_distinct: "distinct (delivery s e)"
  unfolding delivery_def by (rule foldl_set_add_distinct) simp

lemma delivery_set:
  "set (delivery s e) = set (members s (map_get (listenersMap s) e))
     \<union> set (members s (map_get (listenersMap s) ''*''))"
  unfolding delivery_def by (simp add: foldl_set_add_set)

lemma delivery_order:
  assumes "\<forall>a. distinct (setStore s a)"
  shows "delivery s e = members s (map_get (listenersMap s) e)
     @ filter (\<lambda>f. f \<notin> set (members s (map_get (listenersMap s) e)))
         (members s (map_get (listenersMap s) ''*''))"
proof -
  have d: "distinct (members s r)" for r
    using assms by (cases r) (simp_all add: members_def)
  show ?thesis
    unfolding delivery_def foldl_append
    by (simp add: foldl_set_add_order[OF d])
qed

lemma delivery_nobody:
  "map_get (listenersMap s) e = None \<Longrightarrow> map_get (listenersMap s) ''*'' = None \<Longrightarrow> delivery s e = []"
  by (simp add: delivery_def members_def)

text \<open>What a call of \<open>emit\<close> with a string event name leaves in the record.\<close>

lemma emit_with_record:
  assumes k: "call_sat later call" and x: "emit_with call (Str e) p s = Some (s', r)"
  shows "r = Inr ()"
    and "map fst (dispatched (emitSeq s) (added s s')) = delivery s e"
    and "map fst (completions (emitSeq s) (added s s')) = delivery s e"
    and "\<forall>x \<in> set (dispatched (emitSeq s) (added s s')). snd x = [p] \<or> snd x = [p, Str e]"
proof -
  have "r = Inr () \<and> map fst (dispatched (emitSeq s) (added s s')) = delivery s e
    \<and> map fst (completions (emitSeq s) (added s s')) = delivery s e
    \<and> (\<forall>x \<in> set (dispatched (emitSeq s) (added s s')). snd x = [p] \<or> snd x = [p, Str e])"
    using x
  proof (cases rule: emit_with_cases)
    case (invalid err)
    then show ?thesis by (simp add: validateEventName_def)
  next
    case (nobody e')
    then show ?thesis by (simp add: added_def delivery_nobody)
  next
    case (loop e')
    then have e': "e' = e" by simp
    let ?s0 = "s\<lparr>emitSeq := Suc (emitSeq s)\<rparr>"
    have lt: "emitSeq s < emitSeq ?s0" by simp
    from dispatch_record[OF k lt loop(4)[unfolded e']] obtain ys where
      ys: "trace s' = trace ?s0 @ ys" "map fst (dispatched (emitSeq s) ys) = delivery s e"
        "map fst (completions (emitSeq s) ys) = delivery s e"
        "\<forall>x \<in> set (dispatched (emitSeq s) ys). snd x = [p] \<or> snd x = [p, Str e]"
      by blast
    from ys(1) have "added s s' = ys" by (simp add: added_def)
    with ys loop(2) show ?thesis by simp
  qed
  then show "r = Inr ()"
    and "map fst (dispatched (emitSeq s) (added s s')) = delivery s e"
    and "map fst (completions (emitSeq s) (added s s')) = delivery s e"
    and "\<forall>x \<in> set (dispatched (emitSeq s) (added s s')). snd x = [p] \<or> snd x = [p, Str e]"
    by blast+
qed

lemma emit_with_logged:
  assumes k: "call_sat later call" and g: "call_sat grows call"
    and x: "emit_with call (Str e) p s = Some (s', r)"
  shows "\<forall>f err. (f, Inl err) \<in> set (completions (emitSeq s) (added s s'))
           \<longrightarrow> HandlerFailure e err \<in> set (logged s s')"
  using x
proof (cases rule: emit_with_cases)
  case (invalid err)
  then show ?thesis by (simp add: validateEventName_def)
next
  case (nobody e')
  then show ?thesis by (simp add: added_def)
next
  case (loop e')
  then have e': "e' = e" by simp
  let ?s0 = "s\<lparr>emitSeq := Suc (emitSeq s)\<rparr>"
  have lt: "emitSeq s < emitSeq ?s0" by simp
  have ad: "added ?s0 s' = added s s'" by (simp add: added_def)
  from dispatch_logged[OF k g lt loop(4)[unfolded e']] obtain zs where
    zs: "console s' = console ?s0 @ zs"
      "\<forall>f err. (f, Inl err) \<in> set (completions (emitSeq s) (added ?s0 s'))
         \<longrightarrow> HandlerFailure e err \<in> set zs"
    by blast
  from zs(1) have "logged s s' = zs" by (simp add: logged_def)
  with zs(2) show ?thesis unfolding ad by simp
qed

text \<open>The rounds of a call of \<open>emit\<close> that returns.\<close>

lemma emit_rounds:
  assumes x: "emit h prog n (Str e) p s = Some (s', r)" and i: "i < length (delivery s e)"
  shows "\<exists>sm q res. reached h prog n e p s i = Some sm
       \<and> applied h prog n (emitSeq s) (delivery s e ! i) (given s e p sm (delivery s e ! i)) sm
            = Some (q, res)
       \<and> reached h prog n e p s (Suc i) = Some (caught e (emitSeq s) (delivery s e ! i) res q)
       \<and> dispatched (emitSeq s) (added s s') ! i = (delivery s e ! i, given s e p sm (delivery s e ! i))
       \<and> completions (emitSeq s) (added s s') ! i = (delivery s e ! i, res)"
proof -
  note k = invoke_sat[OF closed_under_later, of h prog n]
  from x have "emit_with (invoke h prog n) (Str e) p s = Some (s', r)" by (simp add: emit_def)
  then show ?thesis
  proof (cases rule: emit_with_cases)
    case (invalid err)
    then show ?thesis by (simp add: validateEventName_def)
  next
    case (nobody e')
    with i show ?thesis by (simp add: delivery_nobody)
  next
    case (loop e')
    then have e': "e' = e" by simp
    let ?s0 = "s\<lparr>emitSeq := Suc (emitSeq s)\<rparr>"
    have lt: "emitSeq s < emitSeq ?s0" by simp
    have ad: "added ?s0 s' = added s s'" by (simp add: added_def)
    from dispatch_rounds[OF k lt loop(4)[unfolded e'] i]
    show ?thesis unfolding reached_def applied_def given_def ad .
  qed
qed

lemma emit_reaches_end:
  assumes x: "emit h prog n (Str e) p s = Some (s', r)" and ne: "delivery s e \<noteq> []"
  shows "reached h prog n e p s (length (delivery s e)) = Some s'"
proof -
  from x have "emit_with (invoke h prog n) (Str e) p s = Some (s', r)" by (simp add: emit_def)
  then show ?thesis
  proof (cases rule: emit_with_cases)
    case (invalid err)
    then show ?thesis by (simp add: validateEventName_def)
  next
    case (nobody e')
    with ne show ?thesis by (simp add: delivery_nobody)
  next
    case (loop e')
    then show ?thesis by (simp add: reached_def)
  qed
qed

text \<open>The call returns when each application returns in the state it is made from.\<close>

lemma emit_returns:
  assumes "\<forall>i < length (delivery s e). \<forall>sm. reached h prog n e p s i = Some sm
             \<longrightarrow> applied h prog n (emitSeq s) (delivery s e ! i) (given s e p sm (delivery s e ! i)) sm
                   \<noteq> None"
  shows "\<exists>s'. emit h prog n (Str e) p s = Some (s', Inr ())"
proof -
  from dispatch_returns[OF assms[unfolded reached_def applied_def given_def]] obtain s' where
    "dispatch (invoke h prog n) e p (emitSeq s) (map_get (listenersMap s) e) (map_get (listenersMap s) ''*'')
       (delivery s e) (s\<lparr>emitSeq := Suc (emitSeq s)\<rparr>) = Some s'"
    by blast
  then show ?thesis
    by (auto simp: emit_def emit_with_def validateEventName_def Let_def)
qed

subsection \<open>A listener that throws does not stop the delivery\<close>

text \<open>
  C3. A call \<open>emit(e, p)\<close> that returns has returned normally and has applied every
  member of its delivery set in order. In each round of its loop the listener is
  applied in the state the round before left; when the listener throws, the \<open>catch\<close>
  writes the line of the failure to the console, and the next round starts from there;
  so the lines the call added to the console hold the line of each listener that threw,
  and the state the last round leaves is the state the call returns. The call does
  return when each application returns or throws in the state it is made from.
\<close>

theorem emit_isolates_listener_failures:
  "(emit h prog n (Str e) p s = Some (s', r) \<longrightarrow>
      r = Inr ()
      \<and> map fst (dispatched (emitSeq s) (added s s')) = delivery s e
      \<and> map fst (completions (emitSeq s) (added s s')) = delivery s e
      \<and> (\<forall>i < length (delivery s e). \<exists>sm q res.
            reached h prog n e p s i = Some sm
          \<and> applied h prog n (emitSeq s) (delivery s e ! i) (given s e p sm (delivery s e ! i)) sm
               = Some (q, res)
          \<and> reached h prog n e p s (Suc i) = Some (caught e (emitSeq s) (delivery s e ! i) res q)
          \<and> completions (emitSeq s) (added s s') ! i = (delivery s e ! i, res))
      \<and> (delivery s e \<noteq> [] \<longrightarrow> reached h prog n e p s (length (delivery s e)) = Some s')
      \<and> (\<forall>f err. (f, Inl err) \<in> set (completions (emitSeq s) (added s s'))
            \<longrightarrow> HandlerFailure e err \<in> set (logged s s')))
   \<and> ((\<forall>i < length (delivery s e). \<forall>sm. reached h prog n e p s i = Some sm
          \<longrightarrow> applied h prog n (emitSeq s) (delivery s e ! i) (given s e p sm (delivery s e ! i)) sm
                \<noteq> None)
        \<longrightarrow> (\<exists>s'. emit h prog n (Str e) p s = Some (s', Inr ())))"
proof (intro conjI impI allI)
  note k = invoke_sat[OF closed_under_later, of h prog n]
  assume x: "emit h prog n (Str e) p s = Some (s', r)"
  then have x': "emit_with (invoke h prog n) (Str e) p s = Some (s', r)" by (simp add: emit_def)
  show "r = Inr ()" by (rule emit_with_record(1)[OF k x'])
  show "map fst (dispatched (emitSeq s) (added s s')) = delivery s e"
    by (rule emit_with_record(2)[OF k x'])
  show "map fst (completions (emitSeq s) (added s s')) = delivery s e"
    by (rule emit_with_record(3)[OF k x'])
  show "(f, Inl err) \<in> set (completions (emitSeq s) (added s s'))
      \<Longrightarrow> HandlerFailure e err \<in> set (logged s s')" for f err
    using emit_with_logged[OF k invoke_grows x'] by blast
  show "delivery s e \<noteq> [] \<Longrightarrow> reached h prog n e p s (length (delivery s e)) = Some s'"
    using x by (rule emit_reaches_end)
  fix i assume "i < length (delivery s e)"
  from emit_rounds[OF x this]
  show "\<exists>sm q res. reached h prog n e p s i = Some sm
          \<and> applied h prog n (emitSeq s) (delivery s e ! i) (given s e p sm (delivery s e ! i)) sm
               = Some (q, res)
          \<and> reached h prog n e p s (Suc i) = Some (caught e (emitSeq s) (delivery s e ! i) res q)
          \<and> completions (emitSeq s) (added s s') ! i = (delivery s e ! i, res)"
    by blast
next
  assume "\<forall>i < length (delivery s e). \<forall>sm. reached h prog n e p s i = Some sm
          \<longrightarrow> applied h prog n (emitSeq s) (delivery s e ! i) (given s e p sm (delivery s e ! i)) sm
                \<noteq> None"
  then show "\<exists>s'. emit h prog n (Str e) p s = Some (s', Inr ())"
    by (rule emit_returns)
qed

lemma thrower_among_others_facts:
  "delivery thrower_among_others ''x'' = [Handler 1, Wrapper 0, Handler 0]"
  "emitSeq thrower_among_others = 0"
  by (simp_all add: thrower_among_others_def registry_eval)

lemma thrower_among_others_rounds:
  "map_option (\<lambda>sm. map_option snd
       (applied example_host example_program (Suc (Suc (Suc 0))) 0 (Handler 1)
          (given thrower_among_others ''x'' (Num 7) sm (Handler 1)) sm))
     (reached example_host example_program (Suc (Suc (Suc 0))) ''x'' (Num 7) thrower_among_others 0)
   = Some (Some (Inl (Error ''boom'')))"
  "map_option (\<lambda>sm. map_option snd
       (applied example_host example_program (Suc (Suc (Suc 0))) 0 (Wrapper 0)
          (given thrower_among_others ''x'' (Num 7) sm (Wrapper 0)) sm))
     (reached example_host example_program (Suc (Suc (Suc 0))) ''x'' (Num 7) thrower_among_others (Suc 0))
   = Some (Some (Inr Undefined))"
  "map_option (\<lambda>sm. map_option snd
       (applied example_host example_program (Suc (Suc (Suc 0))) 0 (Handler 0)
          (given thrower_among_others ''x'' (Num 7) sm (Handler 0)) sm))
     (reached example_host example_program (Suc (Suc (Suc 0))) ''x'' (Num 7) thrower_among_others (Suc (Suc 0)))
   = Some (Some (Inr Undefined))"
  by (simp_all add: thrower_among_others_def registry_eval delivery_eval example_program_def)

lemma thrower_among_others_completions:
  "map_option (\<lambda>x. completions 0 (added thrower_among_others (fst x)))
     (emit example_host example_program (Suc (Suc (Suc 0))) (Str ''x'') (Num 7) thrower_among_others)
   = Some [(Handler 1, Inl (Error ''boom'')), (Wrapper 0, Inr Undefined), (Handler 0, Inr Undefined)]"
  by (simp add: thrower_among_others_def registry_eval delivery_eval example_program_def)

theorem emit_isolates_listener_failures_witness:
  "\<exists>s'. emit example_host example_program (Suc (Suc (Suc 0))) (Str ''x'') (Num 7) thrower_among_others
          = Some (s', Inr ())
      \<and> completions 0 (added thrower_among_others s')
          = [(Handler 1, Inl (Error ''boom'')), (Wrapper 0, Inr Undefined), (Handler 0, Inr Undefined)]
      \<and> HandlerFailure ''x'' (Error ''boom'') \<in> set (logged thrower_among_others s')
      \<and> (\<exists>sm q. reached example_host example_program (Suc (Suc (Suc 0))) ''x'' (Num 7) thrower_among_others 0
                   = Some sm
           \<and> applied example_host example_program (Suc (Suc (Suc 0))) 0 (Handler 1)
                 (given thrower_among_others ''x'' (Num 7) sm (Handler 1)) sm
                   = Some (q, Inl (Error ''boom''))
           \<and> reached example_host example_program (Suc (Suc (Suc 0))) ''x'' (Num 7) thrower_among_others (Suc 0)
                   = Some (caught ''x'' 0 (Handler 1) (Inl (Error ''boom'')) q))
      \<and> reached example_host example_program (Suc (Suc (Suc 0))) ''x'' (Num 7) thrower_among_others
           (Suc (Suc (Suc 0))) = Some s'"
proof -
  let ?n = "Suc (Suc (Suc 0))"
  let ?T = "thrower_among_others"
  let ?D = "[Handler 1, Wrapper 0, Handler 0]"
  note th = emit_isolates_listener_failures[of example_host example_program ?n "''x''" "Num 7" ?T,
      unfolded thrower_among_others_facts]
  have ret: "\<forall>i < length ?D.
      \<forall>sm. reached example_host example_program ?n ''x'' (Num 7) ?T i = Some sm
        \<longrightarrow> applied example_host example_program ?n 0 (?D ! i) (given ?T ''x'' (Num 7) sm (?D ! i)) sm
              \<noteq> None"
  proof (intro allI impI)
    fix i sm
    assume "i < length ?D"
      and r: "reached example_host example_program ?n ''x'' (Num 7) ?T i = Some sm"
    then consider "i = 0" | "i = Suc 0" | "i = Suc (Suc 0)" by (auto simp: less_Suc_eq)
    then show "applied example_host example_program ?n 0 (?D ! i) (given ?T ''x'' (Num 7) sm (?D ! i)) sm
        \<noteq> None"
    proof cases
      case 1
      with r thrower_among_others_rounds(1) show ?thesis by auto
    next
      case 2
      with r thrower_among_others_rounds(2) show ?thesis by auto
    next
      case 3
      with r thrower_among_others_rounds(3) show ?thesis by auto
    qed
  qed
  from th[THEN conjunct2, THEN mp, OF ret]
  obtain s' where e: "emit example_host example_program ?n (Str ''x'') (Num 7) ?T = Some (s', Inr ())"
    by (rule exE)
  from thrower_among_others_completions
  have c: "completions 0 (added ?T s')
      = [(Handler 1, Inl (Error ''boom'')), (Wrapper 0, Inr Undefined), (Handler 0, Inr Undefined)]"
    unfolding e by simp
  note a = th[of s' "Inr ()", THEN conjunct1, THEN mp, OF e]
  have "(Handler 1, Inl (Error ''boom'')) \<in> set (completions 0 (added ?T s'))"
    unfolding c by simp
  with a[THEN conjunct2, THEN conjunct2, THEN conjunct2, THEN conjunct2, THEN conjunct2]
  have f: "HandlerFailure ''x'' (Error ''boom'') \<in> set (logged ?T s')" by (elim allE impE)
  have "0 < length ?D" by simp
  with a[THEN conjunct2, THEN conjunct2, THEN conjunct2, THEN conjunct1]
  obtain sm q res where
    r0: "reached example_host example_program ?n ''x'' (Num 7) ?T 0 = Some sm"
    and r1: "applied example_host example_program ?n 0 (?D ! 0) (given ?T ''x'' (Num 7) sm (?D ! 0)) sm
        = Some (q, res)"
    and r2: "reached example_host example_program ?n ''x'' (Num 7) ?T (Suc 0)
        = Some (caught ''x'' 0 (?D ! 0) res q)"
    and r3: "completions 0 (added ?T s') ! 0 = (?D ! 0, res)"
    by blast
  from r3 have res: "res = Inl (Error ''boom'')" unfolding c by simp
  have g: "\<exists>sm q. reached example_host example_program ?n ''x'' (Num 7) ?T 0 = Some sm
           \<and> applied example_host example_program ?n 0 (Handler 1) (given ?T ''x'' (Num 7) sm (Handler 1)) sm
               = Some (q, Inl (Error ''boom''))
           \<and> reached example_host example_program ?n ''x'' (Num 7) ?T (Suc 0)
                = Some (caught ''x'' 0 (Handler 1) (Inl (Error ''boom'')) q)"
    using r0 r1 r2 unfolding res by (intro exI[of _ sm] exI[of _ q]) simp
  have "?D \<noteq> []" by simp
  with a[THEN conjunct2, THEN conjunct2, THEN conjunct2, THEN conjunct2, THEN conjunct1]
  have l: "reached example_host example_program ?n ''x'' (Num 7) ?T (Suc (Suc (Suc 0))) = Some s'"
    by simp
  show ?thesis
    by (rule exI[of _ s']) (intro conjI e c f g l)
qed

section \<open>The registry holds no empty set\<close>

lemma map_get_Some_in: "map_get m k = Some v \<Longrightarrow> (k, v) \<in> set m"
  by (induction m) (auto split: if_splits)

lemma map_get_None_iff: "map_get m k = None \<longleftrightarrow> k \<notin> fst ` set m"
proof (induction m)
  case Nil
  show ?case by simp
next
  case (Cons x m)
  obtain k' v where x: "x = (k', v)" by (cases x)
  show ?case unfolding x using Cons.IH by (cases "k' = k") simp_all
qed

lemma map_get_in: "distinct (map fst m) \<Longrightarrow> (k, v) \<in> set m \<Longrightarrow> map_get m k = Some v"
proof (induction m)
  case Nil
  then show ?case by simp
next
  case (Cons x m)
  obtain k' v' where x: "x = (k', v')" by (cases x)
  from Cons.prems(1) have n: "k' \<notin> fst ` set m" and d: "distinct (map fst m)" unfolding x by simp_all
  show ?case
  proof (cases "(k, v) = x")
    case True
    then show ?thesis unfolding x by simp
  next
    case False
    with Cons.prems(2) have i: "(k, v) \<in> set m" by simp
    then have "k \<in> fst ` set m" by (simp add: rev_image_eqI)
    with n have "k' \<noteq> k" by auto
    with Cons.IH[OF d i] show ?thesis unfolding x by simp
  qed
qed

lemma map_set_present: "map_get m k = Some v \<Longrightarrow> map_set m k v = m"
  by (induction m) (auto split: if_splits)

lemma map_set_absent: "map_get m k = None \<Longrightarrow> map_set m k v = m @ [(k, v)]"
  by (induction m) (auto split: if_splits)

lemma map_delete_subset: "set (map_delete m k) \<subseteq> set m"
  by (induction m) (auto split: if_splits)

lemma map_delete_distinct: "distinct (map f m) \<Longrightarrow> distinct (map f (map_delete m k))"
proof (induction m)
  case Nil
  show ?case by simp
next
  case (Cons x m)
  obtain k' v where x: "x = (k', v)" by (cases x)
  from Cons.prems have "f x \<notin> f ` set m" and d: "distinct (map f m)" by simp_all
  with map_delete_subset[of m k] have "f x \<notin> f ` set (map_delete m k)" by blast
  with Cons.IH[OF d] d show ?case unfolding x by simp
qed

lemma map_delete_key: "distinct (map fst m) \<Longrightarrow> (k, v) \<notin> set (map_delete m k)"
proof (induction m)
  case Nil
  show ?case by simp
next
  case (Cons x m)
  obtain k' v' where x: "x = (k', v')" by (cases x)
  from Cons.prems have n: "k' \<notin> fst ` set m" and d: "distinct (map fst m)" unfolding x by simp_all
  show ?case
  proof (cases "k' = k")
    case True
    with n show ?thesis unfolding x by (auto simp: rev_image_eqI)
  next
    case False
    with Cons.IH[OF d] show ?thesis unfolding x by simp
  qed
qed

lemma reg_ok_cong:
  "listenersMap s' = listenersMap s \<Longrightarrow> setStore s' = setStore s \<Longrightarrow> nextSet s' = nextSet s
     \<Longrightarrow> reg_ok s' = reg_ok s"
  by (simp add: reg_ok_def)

lemma reg_ok_initial: "reg_ok initial"
  by (simp add: reg_ok_def initial_def)

text \<open>\<open>on\<close> with valid arguments, by whether the event has a set already.\<close>

lemma on_present:
  assumes "map_get (listenersMap s) e = Some a"
  shows "listenersMap (fst (on (Str e) (Fn f) s)) = listenersMap s"
    and "setStore (fst (on (Str e) (Fn f) s)) = (setStore s)(a := set_add f (setStore s a))"
    and "nextSet (fst (on (Str e) (Fn f) s)) = nextSet s"
  using assms
  by (simp_all add: on_def validateEventName_def validateHandler_def Let_def map_set_present)

lemma on_absent:
  assumes "map_get (listenersMap s) e = None"
  shows "listenersMap (fst (on (Str e) (Fn f) s)) = listenersMap s @ [(e, nextSet s)]"
    and "setStore (fst (on (Str e) (Fn f) s)) = (setStore s)(nextSet s := [f])"
    and "nextSet (fst (on (Str e) (Fn f) s)) = Suc (nextSet s)"
  using assms
  by (simp_all add: on_def validateEventName_def validateHandler_def Let_def map_set_absent set_add_def)

lemma on_invalid:
  "validateEventName ev = Inl err \<or> validateHandler hl = Inl err \<Longrightarrow> fst (on ev hl s) = s"
  by (auto simp: on_def split: sum.splits)

lemma validate_cases:
  obtains (invalid) err where "validateEventName ev = Inl err \<or> validateHandler hl = Inl err"
    | (valid) e f where "ev = Str e" "hl = Fn f"
proof (cases ev)
  case (Str e)
  show ?thesis
  proof (cases hl)
    case (Fn f)
    with Str show ?thesis by (rule valid)
  qed (auto simp: validateHandler_def intro: invalid)
qed (auto simp: validateEventName_def intro: invalid)

lemma on_reg_ok:
  assumes ok: "reg_ok s"
  shows "reg_ok (fst (on ev hl s))"
proof (cases rule: validate_cases[of ev hl])
  case (invalid err)
  with ok show ?thesis by (simp add: on_invalid)
next
  case (valid e f)
  show ?thesis
  proof (cases "map_get (listenersMap s) e")
    case (Some a)
    note p = on_present[OF Some, of f]
    from ok show ?thesis
      unfolding valid reg_ok_def p by (auto simp: set_add_distinct set_add_def)
  next
    case None
    note p = on_absent[OF None, of f]
    from None have k: "e \<notin> fst ` set (listenersMap s)" by (simp add: map_get_None_iff)
    from ok have lt: "\<forall>x \<in> set (listenersMap s). snd x < nextSet s" by (simp add: reg_ok_def)
    then have a: "nextSet s \<notin> snd ` set (listenersMap s)" by auto
    from ok k a lt show ?thesis
      unfolding valid reg_ok_def p by (auto simp: less_Suc_eq)
  qed
qed

lemma once_reg_ok:
  assumes ok: "reg_ok s"
  shows "reg_ok (fst (once ev hl s))"
proof (cases rule: validate_cases[of ev hl])
  case (invalid err)
  then have "fst (once ev hl s) = s" by (auto simp: once_def split: sum.splits)
  with ok show ?thesis by simp
next
  case (valid e f)
  let ?s1 = "s\<lparr>wrappers := (wrappers s)(nextWrapper s := Some \<lparr>wEvent = e, wHandler = f, completed = False\<rparr>),
                nextWrapper := Suc (nextWrapper s)\<rparr>"
  have "reg_ok ?s1" using ok by (simp add: reg_ok_cong[of ?s1 s])
  then have "reg_ok (fst (on ev (Fn (Wrapper (nextWrapper s))) ?s1))" by (rule on_reg_ok)
  then show ?thesis
    unfolding valid by (simp add: once_def validateEventName_def validateHandler_def Let_def)
qed

text \<open>What a call of \<open>off\<close> does.\<close>

lemma off_cases:
  obtains (clear) "ev = Undefined \<or> ev = Null" "off ev hl s = (s\<lparr>listenersMap := []\<rparr>, Inr ())"
    | (throws) err where "off ev hl s = (s, Inl err)"
    | (unknown) e where "ev = Str e" "map_get (listenersMap s) e = None" "off ev hl s = (s, Inr ())"
    | (event) e a where "ev = Str e" "map_get (listenersMap s) e = Some a" "hl = Undefined"
        "off ev hl s = (s\<lparr>listenersMap := map_delete (listenersMap s) e\<rparr>, Inr ())"
    | (last) e a f where "ev = Str e" "map_get (listenersMap s) e = Some a" "hl = Fn f"
        "set_delete f (setStore s a) = []"
        "off ev hl s = (s\<lparr>setStore := (setStore s)(a := []),
                           listenersMap := map_delete (listenersMap s) e\<rparr>, Inr ())"
    | (member) e a f where "ev = Str e" "map_get (listenersMap s) e = Some a" "hl = Fn f"
        "set_delete f (setStore s a) \<noteq> []"
        "off ev hl s = (s\<lparr>setStore := (setStore s)(a := set_delete f (setStore s a))\<rparr>, Inr ())"
proof (cases "ev = Undefined \<or> ev = Null")
  case True
  then have "off ev hl s = (s\<lparr>listenersMap := []\<rparr>, Inr ())" by (simp add: off_def)
  with True show ?thesis by (rule clear)
next
  case False
  note nc = this
  show ?thesis
  proof (cases "validateEventName ev")
    case (Inl err)
    with nc have "off ev hl s = (s, Inl err)" by (simp add: off_def)
    then show ?thesis by (rule throws)
  next
    case (Inr e)
    then have ev: "ev = Str e" by (cases ev) (simp_all add: validateEventName_def)
    show ?thesis
    proof (cases "map_get (listenersMap s) e")
      case None
      with nc Inr have "off ev hl s = (s, Inr ())" by (simp add: off_def)
      with ev None show ?thesis by (rule unknown)
    next
      case (Some a)
      show ?thesis
      proof (cases "hl = Undefined")
        case True
        with nc Inr Some have "off ev hl s = (s\<lparr>listenersMap := map_delete (listenersMap s) e\<rparr>, Inr ())"
          by (simp add: off_def)
        with ev Some True show ?thesis by (rule event)
      next
        case False
        show ?thesis
        proof (cases "validateHandler hl")
          case (Inl err)
          with nc \<open>validateEventName ev = Inr e\<close> Some False have "off ev hl s = (s, Inl err)"
            by (simp add: off_def)
          then show ?thesis by (rule throws)
        next
          case (Inr f)
          then have hl: "hl = Fn f" by (cases hl) (simp_all add: validateHandler_def)
          show ?thesis
          proof (cases "set_delete f (setStore s a) = []")
            case True
            with nc \<open>validateEventName ev = Inr e\<close> Some False Inr
            have "off ev hl s = (s\<lparr>setStore := (setStore s)(a := []),
                           listenersMap := map_delete (listenersMap s) e\<rparr>, Inr ())"
              by (simp add: off_def Let_def)
            with ev Some hl True show ?thesis by (rule last)
          next
            case False
            with nc \<open>validateEventName ev = Inr e\<close> Some \<open>hl \<noteq> Undefined\<close> Inr
            have "off ev hl s = (s\<lparr>setStore := (setStore s)(a := set_delete f (setStore s a))\<rparr>, Inr ())"
              by (simp add: off_def Let_def)
            with ev Some hl False show ?thesis by (rule member)
          qed
        qed
      qed
    qed
  qed
qed

lemma reg_ok_delete:
  assumes ok: "reg_ok s" and g: "map_get (listenersMap s) e = Some a"
    and st: "\<forall>b. b \<noteq> a \<longrightarrow> st b = setStore s b" and d: "distinct (st a)"
  shows "reg_ok (s\<lparr>setStore := st, listenersMap := map_delete (listenersMap s) e\<rparr>)"
proof -
  let ?m = "map_delete (listenersMap s) e"
  from ok have df: "distinct (map fst (listenersMap s))" and ds: "distinct (map snd (listenersMap s))"
    by (simp_all add: reg_ok_def)
  have sub: "set ?m \<subseteq> set (listenersMap s)" by (rule map_delete_subset)
  have other: "snd x \<noteq> a" if "x \<in> set ?m" for x
  proof
    assume "snd x = a"
    then have x: "x = (fst x, a)" by (cases x) simp
    from that sub have xin: "(fst x, a) \<in> set (listenersMap s)" using x by auto
    from map_get_Some_in[OF g] have ein: "(e, a) \<in> set (listenersMap s)" .
    from ds have "inj_on snd (set (listenersMap s))" by (simp add: distinct_map)
    from inj_onD[OF this _ xin ein] have "fst x = e" by simp
    with that x map_delete_key[OF df, of e a] show False by simp
  qed
  have "\<forall>x \<in> set ?m. snd x < nextSet s \<and> st (snd x) \<noteq> []"
  proof
    fix x assume xm: "x \<in> set ?m"
    with sub ok have "snd x < nextSet s \<and> setStore s (snd x) \<noteq> []" by (auto simp: reg_ok_def)
    with other[OF xm] st show "snd x < nextSet s \<and> st (snd x) \<noteq> []" by simp
  qed
  moreover have "\<forall>b. distinct (st b)"
  proof
    fix b show "distinct (st b)"
      using d st ok by (cases "b = a") (simp_all add: reg_ok_def)
  qed
  ultimately show ?thesis
    using map_delete_distinct[OF df] map_delete_distinct[OF ds] by (simp add: reg_ok_def)
qed

lemma off_reg_ok:
  assumes ok: "reg_ok s"
  shows "reg_ok (fst (off ev hl s))"
proof (cases rule: off_cases[of ev hl s])
  case clear
  with ok show ?thesis by (simp add: reg_ok_def)
next
  case (throws err)
  with ok show ?thesis by simp
next
  case (unknown e)
  with ok show ?thesis by simp
next
  case (event e a)
  have "reg_ok (s\<lparr>setStore := setStore s, listenersMap := map_delete (listenersMap s) e\<rparr>)"
    using ok event(2) by (rule reg_ok_delete) (use ok in \<open>simp_all add: reg_ok_def\<close>)
  with event(4) show ?thesis by simp
next
  case (last e a f)
  have "reg_ok (s\<lparr>setStore := (setStore s)(a := []), listenersMap := map_delete (listenersMap s) e\<rparr>)"
    using ok last(2) by (rule reg_ok_delete) simp_all
  with last(5) show ?thesis by simp
next
  case (member e a f)
  from ok have "distinct (setStore s a)" by (simp add: reg_ok_def)
  then have "distinct (set_delete f (setStore s a))" by (simp add: set_delete_def)
  with ok member(4) have "reg_ok (s\<lparr>setStore := (setStore s)(a := set_delete f (setStore s a))\<rparr>)"
    by (auto simp: reg_ok_def)
  with member(5) show ?thesis by simp
qed

lemma keeps_reg_ok_same:
  "listenersMap s' = listenersMap s \<Longrightarrow> setStore s' = setStore s \<Longrightarrow> nextSet s' = nextSet s
     \<Longrightarrow> keeps reg_ok s s'"
  by (simp add: keeps_def reg_ok_def)

lemma keeps_trans: "keeps I a b \<Longrightarrow> keeps I b c \<Longrightarrow> keeps I a c"
  by (simp add: keeps_def)

lemma elementary_keeps_reg_ok: "elementary (keeps reg_ok)"
  unfolding elementary_def basic_def tagged_def
proof (intro conjI allI impI)
  show "\<And>a b c. keeps reg_ok a b \<Longrightarrow> keeps reg_ok b c \<Longrightarrow> keeps reg_ok a c" by (rule keeps_trans)
  show "\<And>ev hl s. keeps reg_ok s (fst (off ev hl s))" by (simp add: keeps_def off_reg_ok)
qed (rule keeps_reg_ok_same; simp)+

lemma host_closed_reg_ok: "host_closed h (keeps reg_ok)"
  unfolding host_closed_def
proof (intro conjI allI)
  show "closed_under h (keeps reg_ok)"
  proof (rule closed_under_elementary[OF elementary_keeps_reg_ok])
    show "\<And>ev hl s. keeps reg_ok s (fst (on ev hl s))" by (simp add: keeps_def on_reg_ok)
    show "\<And>ev hl s. keeps reg_ok s (fst (once ev hl s))" by (simp add: keeps_def once_reg_ok)
  qed (rule keeps_reg_ok_same; simp)+
qed (rule keeps_reg_ok_same; simp)+

lemma run_ops_reg_ok: "run_ops h prog n xs initial = Some s \<Longrightarrow> reg_ok s"
  using run_ops_sat[OF host_closed_reg_ok, of h prog n xs initial s] reg_ok_initial
  by (simp add: keeps_def)

text \<open>
  C9. After any sequence of operations from the initial state, every event name in
  the registry has at least one listener, and \<open>off(null)\<close> leaves no event name.
\<close>

theorem registry_has_no_empty_set:
  assumes "run_ops h prog n xs initial = Some s"
  shows "(\<forall>e \<in> set (eventNames s). \<exists>k. listenerCount (Str e) s = Inr k \<and> 1 \<le> k)
     \<and> eventNames (fst (off Null Undefined s)) = []"
proof
  from assms have ok: "reg_ok s" by (rule run_ops_reg_ok)
  show "\<forall>e \<in> set (eventNames s). \<exists>k. listenerCount (Str e) s = Inr k \<and> 1 \<le> k"
  proof
    fix e assume "e \<in> set (eventNames s)"
    then obtain a where in_map: "(e, a) \<in> set (listenersMap s)" by (auto simp: eventNames_def)
    from ok have "distinct (map fst (listenersMap s))" by (simp add: reg_ok_def)
    from map_get_in[OF this in_map] have g: "map_get (listenersMap s) e = Some a" .
    from ok in_map have "setStore s a \<noteq> []" by (auto simp: reg_ok_def)
    then have "1 \<le> length (setStore s a)" by (cases "setStore s a") simp_all
    with g show "\<exists>k. listenerCount (Str e) s = Inr k \<and> 1 \<le> k"
      by (simp add: listenerCount_def validateEventName_def)
  qed
  show "eventNames (fst (off Null Undefined s)) = []"
    by (simp add: off_def eventNames_def)
qed

lemma example_session_names:
  "map_option eventNames (run_ops example_host example_program (Suc (Suc 0)) example_session initial)
     = Some [''x'']"
  by code_simp

theorem registry_has_no_empty_set_witness:
  "\<exists>s. run_ops example_host example_program (Suc (Suc 0)) example_session initial = Some s
      \<and> eventNames s = [''x'']
      \<and> (\<exists>k. listenerCount (Str ''x'') s = Inr k \<and> 1 \<le> k)
      \<and> eventNames (fst (off Null Undefined s)) = []"
proof -
  from example_session_names obtain s where
    r: "run_ops example_host example_program (Suc (Suc 0)) example_session initial = Some s"
    and n: "eventNames s = [''x'']"
    by (cases "run_ops example_host example_program (Suc (Suc 0)) example_session initial") simp_all
  note th = registry_has_no_empty_set[OF r]
  from th[THEN conjunct1] n have k: "\<exists>k. listenerCount (Str ''x'') s = Inr k \<and> 1 \<le> k" by simp
  show ?thesis
    by (rule exI[of _ s]) (intro conjI r n k th[THEN conjunct2])
qed

subsection \<open>Who is called, with what, and in which order\<close>

lemma listeners_members: "listeners (Str e) s = Inr (members s (map_get (listenersMap s) e))"
  by (simp add: listeners_def validateEventName_def members_def split: option.splits)


lemma should_wildcard_only:
  "f \<notin> set (members s sp) \<Longrightarrow> f \<in> set (members s wi) \<Longrightarrow> arguments s sp wi e p f = [p, Str e]"
  by (cases sp; cases wi) (simp_all add: arguments_def shouldSendEventName_def members_def)

lemma arguments_members:
  "arguments sm sp wi e p f =
     (if f \<in> set (members sm wi) \<and> f \<notin> set (members sm sp) then [p, Str e] else [p])"
  by (cases sp; cases wi) (simp_all add: arguments_def shouldSendEventName_def members_def)

text \<open>
  C2, as the code has it. A call \<open>emit(e, p)\<close> that returns has applied each listener
  registered for \<open>e\<close> or for the wildcard once, also one registered for both. The
  arguments are decided when the listener is about to be applied, from the two \<open>Set\<close>
  objects the call fetched at its start, as they are by then: the listener gets \<open>p\<close>
  and the event name when it is in the wildcard set and not in the set of \<open>e\<close>, and \<open>p\<close>
  alone otherwise. So a listener whose membership in these two sets is, when it is
  applied, what it was when the call began gets \<open>p\<close> alone when it is registered for
  \<open>e\<close>, and \<open>p\<close> and the event name when it is registered for the wildcard only.
\<close>

theorem emit_applies_each_listener_once:
  assumes x: "emit h prog n (Str e) p s = Some (s', r)"
    and ls: "listeners (Str e) s = Inr ls" and ws: "listeners (Str ''*'') s = Inr ws"
  shows "map fst (dispatched (emitSeq s) (added s s')) = delivery s e
     \<and> distinct (delivery s e)
     \<and> set (delivery s e) = set ls \<union> set ws
     \<and> (\<forall>i < length (delivery s e). \<exists>sm q res args.
          reached h prog n e p s i = Some sm
        \<and> args = (if delivery s e ! i \<in> set (members sm (map_get (listenersMap s) ''*''))
                     \<and> delivery s e ! i \<notin> set (members sm (map_get (listenersMap s) e))
                  then [p, Str e] else [p])
        \<and> applied h prog n (emitSeq s) (delivery s e ! i) args sm = Some (q, res)
        \<and> dispatched (emitSeq s) (added s s') ! i = (delivery s e ! i, args))
     \<and> (\<forall>i < length (delivery s e). \<forall>sm. reached h prog n e p s i = Some sm \<longrightarrow>
          (delivery s e ! i \<in> set (members sm (map_get (listenersMap s) e))
             \<longleftrightarrow> delivery s e ! i \<in> set ls) \<longrightarrow>
          (delivery s e ! i \<in> set (members sm (map_get (listenersMap s) ''*''))
             \<longleftrightarrow> delivery s e ! i \<in> set ws) \<longrightarrow>
          snd (dispatched (emitSeq s) (added s s') ! i)
            = (if delivery s e ! i \<in> set ls then [p] else [p, Str e]))"
proof (intro conjI allI impI)
  let ?D = "dispatched (emitSeq s) (added s s')"
  let ?sp = "map_get (listenersMap s) e" and ?wi = "map_get (listenersMap s) ''*''"
  note k = invoke_sat[OF closed_under_later, of h prog n]
  from x have x': "emit_with (invoke h prog n) (Str e) p s = Some (s', r)" by (simp add: emit_def)
  from ls have ls': "ls = members s ?sp" by (simp add: listeners_members)
  from ws have ws': "ws = members s ?wi" by (simp add: listeners_members)
  show "map fst ?D = delivery s e" by (rule emit_with_record(2)[OF k x'])
  show "distinct (delivery s e)" by (rule delivery_distinct)
  show ds: "set (delivery s e) = set ls \<union> set ws" unfolding ls' ws' by (rule delivery_set)
  {
    fix i assume i: "i < length (delivery s e)"
    let ?f = "delivery s e ! i"
    from emit_rounds[OF x i] obtain sm q res where
      r0: "reached h prog n e p s i = Some sm"
      and r1: "applied h prog n (emitSeq s) ?f (given s e p sm ?f) sm = Some (q, res)"
      and r3: "?D ! i = (?f, given s e p sm ?f)"
      by blast
    let ?args = "if ?f \<in> set (members sm ?wi) \<and> ?f \<notin> set (members sm ?sp) then [p, Str e] else [p]"
    have g: "given s e p sm ?f = ?args" unfolding given_def by (rule arguments_members)
    show "\<exists>sm q res args. reached h prog n e p s i = Some sm
        \<and> args = (if ?f \<in> set (members sm ?wi) \<and> ?f \<notin> set (members sm ?sp) then [p, Str e] else [p])
        \<and> applied h prog n (emitSeq s) ?f args sm = Some (q, res)
        \<and> ?D ! i = (?f, args)"
      using r0 r1 r3 unfolding g by blast
    fix sm'
    assume r0': "reached h prog n e p s i = Some sm'"
      and m1: "?f \<in> set (members sm' ?sp) \<longleftrightarrow> ?f \<in> set ls"
      and m2: "?f \<in> set (members sm' ?wi) \<longleftrightarrow> ?f \<in> set ws"
    from r0 r0' have sm: "sm' = sm" by simp
    from i have "?f \<in> set (delivery s e)" by simp
    then have "?f \<in> set ls \<or> ?f \<in> set ws" unfolding ds by simp
    with m1 m2 have "?args = (if ?f \<in> set ls then [p] else [p, Str e])"
      unfolding sm by auto
    with r3 show "snd (?D ! i) = (if ?f \<in> set ls then [p] else [p, Str e])"
      unfolding g by simp
  }
qed

lemma once_and_wildcard_facts:
  "listeners (Str ''x'') once_and_wildcard = Inr [Wrapper 0, Handler 7, Handler 0]"
  "listeners (Str ''*'') once_and_wildcard = Inr [Handler 0, Handler 5]"
  "delivery once_and_wildcard ''x'' = [Wrapper 0, Handler 7, Handler 0, Handler 5]"
  "emitSeq once_and_wildcard = 0"
  by (simp_all add: once_and_wildcard_def registry_eval)

lemma once_and_wildcard_run:
  "map_option (\<lambda>x. (snd x, dispatched 0 (added once_and_wildcard (fst x))))
     (emit example_host example_program (Suc (Suc 0)) (Str ''x'') (Num 7) once_and_wildcard)
   = Some (Inr (), [(Wrapper 0, [Num 7]), (Handler 7, [Num 7]), (Handler 0, [Num 7]),
                    (Handler 5, [Num 7, Str ''x''])])"
  by (simp add: once_and_wildcard_def registry_eval delivery_eval example_program_def)

text \<open>The two sets the call fetched, as they are when each round begins.\<close>

lemma once_and_wildcard_sets:
  "map_option (\<lambda>sm. (members sm (map_get (listenersMap once_and_wildcard) ''x''),
                     members sm (map_get (listenersMap once_and_wildcard) ''*'')))
     (reached example_host example_program (Suc (Suc 0)) ''x'' (Num 7) once_and_wildcard 0)
   = Some ([Wrapper 0, Handler 7, Handler 0], [Handler 0, Handler 5])"
  "map_option (\<lambda>sm. (members sm (map_get (listenersMap once_and_wildcard) ''x''),
                     members sm (map_get (listenersMap once_and_wildcard) ''*'')))
     (reached example_host example_program (Suc (Suc 0)) ''x'' (Num 7) once_and_wildcard (Suc 0))
   = Some ([Handler 7, Handler 0], [Handler 0, Handler 5])"
  "map_option (\<lambda>sm. (members sm (map_get (listenersMap once_and_wildcard) ''x''),
                     members sm (map_get (listenersMap once_and_wildcard) ''*'')))
     (reached example_host example_program (Suc (Suc 0)) ''x'' (Num 7) once_and_wildcard (Suc (Suc 0)))
   = Some ([Handler 7, Handler 0], [Handler 0, Handler 5])"
  "map_option (\<lambda>sm. (members sm (map_get (listenersMap once_and_wildcard) ''x''),
                     members sm (map_get (listenersMap once_and_wildcard) ''*'')))
     (reached example_host example_program (Suc (Suc 0)) ''x'' (Num 7) once_and_wildcard (Suc (Suc (Suc 0))))
   = Some ([Handler 7, Handler 0], [Handler 0, Handler 5])"
  by (simp_all add: once_and_wildcard_def registry_eval delivery_eval example_program_def)

theorem emit_applies_each_listener_once_witness:
  "\<exists>s'. emit example_host example_program (Suc (Suc 0)) (Str ''x'') (Num 7) once_and_wildcard = Some (s', Inr ())
      \<and> dispatched 0 (added once_and_wildcard s')
          = [(Wrapper 0, [Num 7]), (Handler 7, [Num 7]), (Handler 0, [Num 7]), (Handler 5, [Num 7, Str ''x''])]
      \<and> distinct [Wrapper 0, Handler 7, Handler 0, Handler 5]
      \<and> (\<forall>i < 4. snd (dispatched 0 (added once_and_wildcard s') ! i)
            = (if [Wrapper 0, Handler 7, Handler 0, Handler 5] ! i \<in> set [Wrapper 0, Handler 7, Handler 0]
               then [Num 7] else [Num 7, Str ''x'']))
      \<and> (\<exists>sm q res. reached example_host example_program (Suc (Suc 0)) ''x'' (Num 7) once_and_wildcard
                        (Suc (Suc (Suc 0))) = Some sm
            \<and> applied example_host example_program (Suc (Suc 0)) 0 (Handler 5) [Num 7, Str ''x''] sm
                = Some (q, res))"
proof -
  let ?n = "Suc (Suc 0)"
  let ?S = "once_and_wildcard"
  let ?F = "[Wrapper 0, Handler 7, Handler 0, Handler 5]"
  from once_and_wildcard_run obtain s' where
    e: "emit example_host example_program ?n (Str ''x'') (Num 7) ?S = Some (s', Inr ())"
    and d: "dispatched 0 (added ?S s')
      = [(Wrapper 0, [Num 7]), (Handler 7, [Num 7]), (Handler 0, [Num 7]), (Handler 5, [Num 7, Str ''x''])]"
    by (cases "emit example_host example_program ?n (Str ''x'') (Num 7) ?S") auto
  note th = emit_applies_each_listener_once[OF e once_and_wildcard_facts(1,2),
      unfolded once_and_wildcard_facts(3,4)]
  note stable = th[THEN conjunct2, THEN conjunct2, THEN conjunct2, THEN conjunct2, rule_format]
  have len: "length ?F = 4" by simp
  have g: "\<forall>i < 4. snd (dispatched 0 (added ?S s') ! i)
      = (if ?F ! i \<in> set [Wrapper 0, Handler 7, Handler 0] then [Num 7] else [Num 7, Str ''x''])"
  proof (intro allI impI)
    fix i :: nat assume i: "i < 4"
    then have il: "i < length ?F" by simp
    from i consider "i = 0" | "i = Suc 0" | "i = Suc (Suc 0)" | "i = Suc (Suc (Suc 0))"
      by (auto simp: less_Suc_eq numeral_eq_Suc)
    then obtain sm where r: "reached example_host example_program ?n ''x'' (Num 7) ?S i = Some sm"
      and m: "(?F ! i \<in> set (members sm (map_get (listenersMap ?S) ''x''))
                \<longleftrightarrow> ?F ! i \<in> set [Wrapper 0, Handler 7, Handler 0])
            \<and> (?F ! i \<in> set (members sm (map_get (listenersMap ?S) ''*''))
                \<longleftrightarrow> ?F ! i \<in> set [Handler 0, Handler 5])"
    proof cases
      case 1
      from once_and_wildcard_sets(1) obtain sm where
        r: "reached example_host example_program ?n ''x'' (Num 7) ?S (0) = Some sm"
        and m1: "members sm (map_get (listenersMap ?S) ''x'') = [Wrapper 0, Handler 7, Handler 0]"
        and m2: "members sm (map_get (listenersMap ?S) ''*'') = [Handler 0, Handler 5]"
        by auto
      have a: "reached example_host example_program ?n ''x'' (Num 7) ?S i = Some sm"
        using r unfolding 1 .
      have b: "(?F ! i \<in> set (members sm (map_get (listenersMap ?S) ''x''))
                \<longleftrightarrow> ?F ! i \<in> set [Wrapper 0, Handler 7, Handler 0])
            \<and> (?F ! i \<in> set (members sm (map_get (listenersMap ?S) ''*''))
                \<longleftrightarrow> ?F ! i \<in> set [Handler 0, Handler 5])"
        unfolding m1 m2 1 by simp
      from a b show ?thesis by (rule that)
    next
      case 2
      from once_and_wildcard_sets(2) obtain sm where
        r: "reached example_host example_program ?n ''x'' (Num 7) ?S (Suc 0) = Some sm"
        and m1: "members sm (map_get (listenersMap ?S) ''x'') = [Handler 7, Handler 0]"
        and m2: "members sm (map_get (listenersMap ?S) ''*'') = [Handler 0, Handler 5]"
        by auto
      have a: "reached example_host example_program ?n ''x'' (Num 7) ?S i = Some sm"
        using r unfolding 2 .
      have b: "(?F ! i \<in> set (members sm (map_get (listenersMap ?S) ''x''))
                \<longleftrightarrow> ?F ! i \<in> set [Wrapper 0, Handler 7, Handler 0])
            \<and> (?F ! i \<in> set (members sm (map_get (listenersMap ?S) ''*''))
                \<longleftrightarrow> ?F ! i \<in> set [Handler 0, Handler 5])"
        unfolding m1 m2 2 by simp
      from a b show ?thesis by (rule that)
    next
      case 3
      from once_and_wildcard_sets(3) obtain sm where
        r: "reached example_host example_program ?n ''x'' (Num 7) ?S (Suc (Suc 0)) = Some sm"
        and m1: "members sm (map_get (listenersMap ?S) ''x'') = [Handler 7, Handler 0]"
        and m2: "members sm (map_get (listenersMap ?S) ''*'') = [Handler 0, Handler 5]"
        by auto
      have a: "reached example_host example_program ?n ''x'' (Num 7) ?S i = Some sm"
        using r unfolding 3 .
      have b: "(?F ! i \<in> set (members sm (map_get (listenersMap ?S) ''x''))
                \<longleftrightarrow> ?F ! i \<in> set [Wrapper 0, Handler 7, Handler 0])
            \<and> (?F ! i \<in> set (members sm (map_get (listenersMap ?S) ''*''))
                \<longleftrightarrow> ?F ! i \<in> set [Handler 0, Handler 5])"
        unfolding m1 m2 3 by simp
      from a b show ?thesis by (rule that)
    next
      case 4
      from once_and_wildcard_sets(4) obtain sm where
        r: "reached example_host example_program ?n ''x'' (Num 7) ?S (Suc (Suc (Suc 0))) = Some sm"
        and m1: "members sm (map_get (listenersMap ?S) ''x'') = [Handler 7, Handler 0]"
        and m2: "members sm (map_get (listenersMap ?S) ''*'') = [Handler 0, Handler 5]"
        by auto
      have a: "reached example_host example_program ?n ''x'' (Num 7) ?S i = Some sm"
        using r unfolding 4 .
      have b: "(?F ! i \<in> set (members sm (map_get (listenersMap ?S) ''x''))
                \<longleftrightarrow> ?F ! i \<in> set [Wrapper 0, Handler 7, Handler 0])
            \<and> (?F ! i \<in> set (members sm (map_get (listenersMap ?S) ''*''))
                \<longleftrightarrow> ?F ! i \<in> set [Handler 0, Handler 5])"
        unfolding m1 m2 4 by simp
      from a b show ?thesis by (rule that)
    qed
    from stable[OF il r m[THEN conjunct1] m[THEN conjunct2]]
    show "snd (dispatched 0 (added ?S s') ! i)
      = (if ?F ! i \<in> set [Wrapper 0, Handler 7, Handler 0] then [Num 7] else [Num 7, Str ''x''])" .
  qed
  have "Suc (Suc (Suc 0)) < length ?F" by simp
  from th[THEN conjunct2, THEN conjunct2, THEN conjunct2, THEN conjunct1, rule_format, OF this]
  obtain sm q res args where
    r0: "reached example_host example_program ?n ''x'' (Num 7) ?S (Suc (Suc (Suc 0))) = Some sm"
    and r1: "applied example_host example_program ?n 0 (?F ! Suc (Suc (Suc 0))) args sm = Some (q, res)"
    and r2: "dispatched 0 (added ?S s') ! Suc (Suc (Suc 0)) = (?F ! Suc (Suc (Suc 0)), args)"
    by blast
  from r2 have "args = [Num 7, Str ''x'']" unfolding d by simp
  with r0 r1 have a: "\<exists>sm q res. reached example_host example_program ?n ''x'' (Num 7) ?S
                        (Suc (Suc (Suc 0))) = Some sm
            \<and> applied example_host example_program ?n 0 (Handler 5) [Num 7, Str ''x''] sm = Some (q, res)"
    by (intro exI[of _ sm] exI[of _ q] exI[of _ res]) simp
  have dd: "distinct ?F" using th[THEN conjunct2, THEN conjunct1] .
  show ?thesis
    by (rule exI[of _ s']) (intro conjI e d dd g a)
qed

text \<open>
  The claim as written fails when a listener called earlier changes the registry. With
  \<open>L6\<close> and \<open>L0\<close> registered for \<open>x\<close> and \<open>L0\<close> for the wildcard too, \<open>L6\<close> leaves \<open>L0\<close>
  registered for \<open>x\<close>, but in a new \<open>Set\<close> object; \<open>emit\<close> still reads the old one, and
  \<open>L0\<close>, registered for \<open>x\<close> before and after, is called with the event name.
\<close>

theorem emit_reads_the_sets_it_fetched:
  "listeners (Str ''x'') registry_changed_in_flight = Inr [Handler 6, Handler 0]
   \<and> listeners (Str ''*'') registry_changed_in_flight = Inr [Handler 0]
   \<and> emit_calls example_host example_program (Suc (Suc 0)) ''x'' (Num 7) registry_changed_in_flight
       = Some [(Handler 6, [Num 7]), (Handler 0, [Num 7, Str ''x''])]
   \<and> map_option (listeners (Str ''x''))
        (after_emit example_host example_program (Suc (Suc 0)) ''x'' (Num 7) registry_changed_in_flight)
       = Some (Inr [Handler 0])"
  by code_simp

lemma map_get_delete: "distinct (map fst m) \<Longrightarrow> map_get (map_delete m k) k = None"
  unfolding map_get_None_iff using map_delete_key[of m k] by auto

lemma map_get_append_None: "map_get m k = None \<Longrightarrow> map_get (m @ [(k, v)]) k = Some v"
  by (induction m) (auto split: if_splits)

lemma off_valid_returns: "snd (off (Str e) (Fn f) s) = Inr ()"
  by (simp add: off_def validateEventName_def validateHandler_def Let_def split: option.splits)

lemma listeners_on:
  assumes "listeners (Str e) s = Inr ls"
  shows "listeners (Str e) (fst (on (Str e) (Fn f) s)) = Inr (if f \<in> set ls then ls else ls @ [f])"
proof (cases "map_get (listenersMap s) e")
  case None
  with assms have "ls = []" by (simp add: listeners_members members_def)
  with None show ?thesis
    unfolding listeners_members by (simp add: on_absent members_def map_get_append_None)
next
  case (Some a)
  with assms have "ls = setStore s a" by (simp add: listeners_members members_def)
  with Some show ?thesis
    unfolding listeners_members by (simp add: on_present members_def set_add_def)
qed

lemma listeners_off:
  assumes ok: "reg_ok s" and ls: "listeners (Str e) s = Inr ls"
  shows "listeners (Str e) (fst (off (Str e) (Fn f) s)) = Inr (filter (\<lambda>g. g \<noteq> f) ls)"
proof -
  from ok have df: "distinct (map fst (listenersMap s))" by (simp add: reg_ok_def)
  show ?thesis
  proof (cases rule: off_cases[of "Str e" "Fn f" s])
    case clear
    then show ?thesis by simp
  next
    case (throws err)
    with off_valid_returns[of e f s] show ?thesis by simp
  next
    case (unknown e')
    with ls have "ls = []" by (simp add: listeners_members members_def)
    with unknown ls show ?thesis by simp
  next
    case (event e' a)
    then show ?thesis by simp
  next
    case (last e' a f')
    from last(1,2) ls have l: "ls = setStore s a" by (simp add: listeners_members members_def)
    from last(1,3,4) l have "filter (\<lambda>g. g \<noteq> f) ls = []" by (simp add: set_delete_def)
    with last(1,5) map_get_delete[OF df, of e] show ?thesis
      by (simp add: listeners_members members_def)
  next
    case (member e' a f')
    from member(1,2) ls have l: "ls = setStore s a" by (simp add: listeners_members members_def)
    with member(1,2,3,5) show ?thesis
      by (simp add: listeners_members members_def set_delete_def)
  qed
qed

text \<open>
  C8, as the code has it. \<open>emit(e, p)\<close> applies the listeners of the set of \<open>e\<close> in the
  order of that set, then the listeners of the wildcard set that are not in the set
  of \<open>e\<close>, in the order of the wildcard set. The order of a set is the order in which
  its members were added since they were last removed: registering a listener again
  while it is registered leaves it where it is, registering a new one puts it last,
  and a removal keeps the order of the others.
\<close>

theorem emit_delivers_in_set_order:
  assumes reach: "run_ops h prog m xs initial = Some s"
    and x: "emit h prog n (Str e) p s = Some (s', r)"
    and ls: "listeners (Str e) s = Inr ls" and ws: "listeners (Str ''*'') s = Inr ws"
  shows "map fst (dispatched (emitSeq s) (added s s')) = ls @ filter (\<lambda>f. f \<notin> set ls) ws
     \<and> listeners (Str e) (fst (on (Str e) (Fn f) s)) = Inr (if f \<in> set ls then ls else ls @ [f])
     \<and> listeners (Str e) (fst (off (Str e) (Fn f) s)) = Inr (filter (\<lambda>g. g \<noteq> f) ls)"
proof (intro conjI)
  from reach have ok: "reg_ok s" by (rule run_ops_reg_ok)
  note k = invoke_sat[OF closed_under_later, of h prog n]
  from x have x': "emit_with (invoke h prog n) (Str e) p s = Some (s', r)" by (simp add: emit_def)
  from ls have ls': "ls = members s (map_get (listenersMap s) e)" by (simp add: listeners_members)
  from ws have ws': "ws = members s (map_get (listenersMap s) ''*'')" by (simp add: listeners_members)
  from ok have "\<forall>a. distinct (setStore s a)" by (simp add: reg_ok_def)
  from delivery_order[OF this, of e] emit_with_record(2)[OF k x']
  show "map fst (dispatched (emitSeq s) (added s s')) = ls @ filter (\<lambda>f. f \<notin> set ls) ws"
    unfolding ls' ws' by simp
  show "listeners (Str e) (fst (on (Str e) (Fn f) s)) = Inr (if f \<in> set ls then ls else ls @ [f])"
    using ls by (rule listeners_on)
  show "listeners (Str e) (fst (off (Str e) (Fn f) s)) = Inr (filter (\<lambda>g. g \<noteq> f) ls)"
    using ok ls by (rule listeners_off)
qed

lemma specific_and_wildcard_facts:
  "listeners (Str ''x'') specific_and_wildcard = Inr [Handler 0]"
  "listeners (Str ''*'') specific_and_wildcard = Inr [Handler 0, Handler 5]"
  "emitSeq specific_and_wildcard = 0"
  by code_simp+

lemma specific_and_wildcard_reached:
  "run_ops example_host example_program 0
     [App (AOn (Str ''x'') (Fn (Handler 0))), App (AOn (Str ''*'') (Fn (Handler 0))),
      App (AOn (Str ''*'') (Fn (Handler 5)))] initial = Some specific_and_wildcard"
  by (simp add: thrown_def specific_and_wildcard_def)

lemma specific_and_wildcard_returns:
  "map_option snd (emit example_host example_program (Suc 0) (Str ''*'') (Num 7) specific_and_wildcard)
     = Some (Inr ())"
  by code_simp

theorem emit_delivers_in_set_order_witness:
  "\<exists>s'. emit example_host example_program (Suc 0) (Str ''*'') (Num 7) specific_and_wildcard = Some (s', Inr ())
      \<and> map fst (dispatched 0 (added specific_and_wildcard s')) = [Handler 0, Handler 5]
      \<and> listeners (Str ''*'') (fst (on (Str ''*'') (Fn (Handler 0)) specific_and_wildcard))
           = Inr [Handler 0, Handler 5]
      \<and> listeners (Str ''*'') (fst (off (Str ''*'') (Fn (Handler 0)) specific_and_wildcard))
           = Inr [Handler 5]"
proof -
  from specific_and_wildcard_returns obtain s' where
    e: "emit example_host example_program (Suc 0) (Str ''*'') (Num 7) specific_and_wildcard = Some (s', Inr ())"
    by (cases "emit example_host example_program (Suc 0) (Str ''*'') (Num 7) specific_and_wildcard") auto
  note th = emit_delivers_in_set_order[OF specific_and_wildcard_reached e
      specific_and_wildcard_facts(2) specific_and_wildcard_facts(2), of "Handler 0",
      unfolded specific_and_wildcard_facts(3)]
  have a: "map fst (dispatched 0 (added specific_and_wildcard s')) = [Handler 0, Handler 5]"
    using th[THEN conjunct1] by simp
  have b: "listeners (Str ''*'') (fst (on (Str ''*'') (Fn (Handler 0)) specific_and_wildcard))
           = Inr [Handler 0, Handler 5]"
    using th[THEN conjunct2, THEN conjunct1] by simp
  have c: "listeners (Str ''*'') (fst (off (Str ''*'') (Fn (Handler 0)) specific_and_wildcard))
           = Inr [Handler 5]"
    using th[THEN conjunct2, THEN conjunct2] by simp
  show ?thesis
    by (rule exI[of _ s']) (intro conjI e a b c)
qed

text \<open>
  The claim as written fails for a listener registered again while it is registered:
  after \<open>on("x", L0); on("x", L5); on("x", L0)\<close> the listener \<open>L0\<close> is still the first
  to be called, not the last.
\<close>

theorem registering_again_keeps_the_place:
  "listeners (Str ''x'') registered_again = Inr [Handler 0, Handler 5]
   \<and> emit_order example_host example_program (Suc 0) ''x'' (Num 7) registered_again
       = Some [Handler 0, Handler 5]"
  by code_simp

section \<open>Delivery by emitAsync\<close>

text \<open>One round of \<open>Array.from(handlers, ...)\<close>.\<close>

lemma launch_Cons:
  assumes "launch h call e p j sp wi (f # fns) s = Some (s', tasks)"
  obtains s1 r s2 ts where
    "call f (arguments s sp wi e p f)
       (s\<lparr>trace := trace s @ [Invoke (FromEmit j) f (arguments s sp wi e p f)]\<rparr>) = Some (s1, r)"
    "launch h call e p j sp wi fns s2 = Some (s', ts)"
    "tasks = task_of h r # ts"
    "trace s2 = trace s1 @ [Complete (FromEmit j) f r]"
    "emitSeq s2 = emitSeq s1"
proof -
  let ?args = "arguments s sp wi e p f"
  let ?s0 = "s\<lparr>trace := trace s @ [Invoke (FromEmit j) f ?args]\<rparr>"
  from assms obtain s1 r where c: "call f ?args ?s0 = Some (s1, r)"
    by (auto simp: Let_def split: option.splits)
  let ?s2 = "s1\<lparr>trace := trace s1 @ [Complete (FromEmit j) f r]\<rparr>"
  from assms c obtain ts where "launch h call e p j sp wi fns ?s2 = Some (s', ts)" "tasks = task_of h r # ts"
    by (auto simp: Let_def split: option.splits)
  with c show ?thesis by (intro that[of s1 r ?s2 ts]) simp_all
qed

lemma launch_record:
  assumes k: "call_sat later call"
  shows "j < emitSeq s \<Longrightarrow> launch h call e p j sp wi fns s = Some (s', tasks) \<Longrightarrow>
    \<exists>ys. trace s' = trace s @ ys \<and> map fst (dispatched j ys) = fns
         \<and> map fst (completions j ys) = fns
         \<and> tasks = map (\<lambda>c. task_of h (snd c)) (completions j ys)"
proof (induction fns arbitrary: s tasks)
  case Nil
  then show ?case by simp
next
  case (Cons f fns)
  let ?args = "arguments s sp wi e p f"
  let ?s0 = "s\<lparr>trace := trace s @ [Invoke (FromEmit j) f ?args]\<rparr>"
  from Cons.prems(2) obtain s1 r s2 ts where
    c: "call f ?args ?s0 = Some (s1, r)"
    and d: "launch h call e p j sp wi fns s2 = Some (s', ts)"
    and tk: "tasks = task_of h r # ts"
    and t2: "trace s2 = trace s1 @ [Complete (FromEmit j) f r]"
    and q2: "emitSeq s2 = emitSeq s1"
    by (rule launch_Cons)
  from call_satD[OF k c] obtain zs where zs: "trace s1 = trace ?s0 @ zs"
      "tags_from (emitSeq ?s0) zs" and le: "emitSeq ?s0 \<le> emitSeq s1"
    by (auto simp: later_def)
  from zs(2) Cons.prems(1) have z: "dispatched j zs = []" "completions j zs = []"
    by (simp_all add: tags_from_dispatched tags_from_completions)
  from le q2 Cons.prems(1) have "j < emitSeq s2" by simp
  from Cons.IH[OF this d] obtain ys where ys: "trace s' = trace s2 @ ys"
      "map fst (dispatched j ys) = fns" "map fst (completions j ys) = fns"
      "ts = map (\<lambda>c. task_of h (snd c)) (completions j ys)"
    by blast
  let ?all = "Invoke (FromEmit j) f ?args # zs @ Complete (FromEmit j) f r # ys"
  have a1: "trace s' = trace s @ ?all" using ys(1) t2 zs(1) by simp
  have a2: "map fst (dispatched j ?all) = f # fns" using z ys(2) by simp
  have a3: "map fst (completions j ?all) = f # fns" using z ys(3) by simp
  have a4: "tasks = map (\<lambda>c. task_of h (snd c)) (completions j ?all)" using z ys(4) tk by simp
  show ?case by (rule exI[of _ ?all]) (intro conjI; fact)
qed

lemma launch_step:
  "launch h call e p j sp wi (f # fns) s =
     (case call f (arguments s sp wi e p f)
             (s\<lparr>trace := trace s @ [Invoke (FromEmit j) f (arguments s sp wi e p f)]\<rparr>) of
        None \<Rightarrow> None
      | Some (q, r) \<Rightarrow>
         (case launch h call e p j sp wi fns (ended j f r q) of
            None \<Rightarrow> None
          | Some (s', ts) \<Rightarrow> Some (s', task_of h r # ts)))"
  by (simp add: ended_def Let_def split: option.splits)

lemma launch_append:
  "launch h call e p j sp wi (xs @ ys) s =
     (case launch h call e p j sp wi xs s of
        None \<Rightarrow> None
      | Some (sm, ts) \<Rightarrow>
         (case launch h call e p j sp wi ys sm of
            None \<Rightarrow> None
          | Some (s', us) \<Rightarrow> Some (s', ts @ us)))"
proof (induction xs arbitrary: s)
  case Nil
  show ?case by (simp split: option.splits)
next
  case (Cons x xs)
  show ?case
    unfolding append_Cons launch_step
    by (simp add: Cons.IH split: option.splits)
qed

lemma launch_snoc:
  "launch h call e p j sp wi (xs @ [x]) s =
     (case launch h call e p j sp wi xs s of
        None \<Rightarrow> None
      | Some (sm, ts) \<Rightarrow>
         (case call x (arguments sm sp wi e p x)
                 (sm\<lparr>trace := trace sm @ [Invoke (FromEmit j) x (arguments sm sp wi e p x)]\<rparr>) of
            None \<Rightarrow> None
          | Some (q, r) \<Rightarrow> Some (ended j x r q, ts @ [task_of h r])))"
  unfolding launch_append launch_step by (simp split: option.splits)

lemma call_record_ended:
  assumes k: "call_sat later call" and lt: "j < emitSeq s"
    and c: "call f args (s\<lparr>trace := trace s @ [Invoke (FromEmit j) f args]\<rparr>) = Some (q, r)"
  shows "\<exists>ys. trace (ended j f r q) = trace s @ ys \<and> dispatched j ys = [(f, args)]
           \<and> completions j ys = [(f, r)]"
  using call_record(2)[OF k lt c] by simp

text \<open>Every round of a call of \<open>Array.from\<close> that returns.\<close>

lemma launch_rounds:
  assumes k: "call_sat later call"
  shows "j < emitSeq s \<Longrightarrow> launch h call e p j sp wi fns s = Some (s', tasks) \<Longrightarrow> i < length fns \<Longrightarrow>
    \<exists>sm ts q r. launch h call e p j sp wi (take i fns) s = Some (sm, ts)
       \<and> call (fns ! i) (arguments sm sp wi e p (fns ! i))
            (sm\<lparr>trace := trace sm @ [Invoke (FromEmit j) (fns ! i) (arguments sm sp wi e p (fns ! i))]\<rparr>)
          = Some (q, r)
       \<and> launch h call e p j sp wi (take (Suc i) fns) s
          = Some (ended j (fns ! i) r q, ts @ [task_of h r])
       \<and> dispatched j (added s s') ! i = (fns ! i, arguments sm sp wi e p (fns ! i))
       \<and> completions j (added s s') ! i = (fns ! i, r)"
proof (induction fns arbitrary: s i tasks)
  case Nil
  then show ?case by simp
next
  case (Cons f fns)
  let ?args = "arguments s sp wi e p f"
  from Cons.prems(2) obtain q0 r0 ts0 where
    d0: "call f ?args (s\<lparr>trace := trace s @ [Invoke (FromEmit j) f ?args]\<rparr>) = Some (q0, r0)"
    and rest: "launch h call e p j sp wi fns (ended j f r0 q0) = Some (s', ts0)"
    unfolding launch_step by (auto split: option.splits)
  let ?c = "ended j f r0 q0"
  from call_record_ended[OF k Cons.prems(1) d0] obtain ys where
    ys: "trace ?c = trace s @ ys" "dispatched j ys = [(f, ?args)]" "completions j ys = [(f, r0)]"
    by blast
  have lt2: "j < emitSeq ?c"
    using call_record(1)[OF k Cons.prems(1) d0] by simp
  from launch_record[OF k lt2 rest] obtain zs where zs: "trace s' = trace ?c @ zs"
    by blast
  have a: "added s s' = ys @ zs" using ys(1) zs by (simp add: added_def)
  have a2: "added ?c s' = zs" using zs by (simp add: added_def)
  show ?case
  proof (cases i)
    case 0
    have t0: "launch h call e p j sp wi (take 0 (f # fns)) s = Some (s, [])" by simp
    have t1: "launch h call e p j sp wi (take (Suc 0) (f # fns)) s
        = Some (ended j ((f # fns) ! 0) r0 q0, [] @ [task_of h r0])"
      unfolding take_Suc_Cons take_0 launch_step using d0 by simp
    have r1: "dispatched j (added s s') ! 0 = ((f # fns) ! 0, arguments s sp wi e p ((f # fns) ! 0))"
      unfolding a using ys(2) by simp
    have r2: "completions j (added s s') ! 0 = ((f # fns) ! 0, r0)"
      unfolding a using ys(3) by simp
    from d0 have d0': "call ((f # fns) ! 0) (arguments s sp wi e p ((f # fns) ! 0))
        (s\<lparr>trace := trace s @ [Invoke (FromEmit j) ((f # fns) ! 0) (arguments s sp wi e p ((f # fns) ! 0))]\<rparr>)
        = Some (q0, r0)"
      by simp
    show ?thesis unfolding 0
      by (rule exI[of _ s], rule exI[of _ "[]"], rule exI[of _ q0], rule exI[of _ r0])
         (intro conjI t0 d0' t1 r1 r2)
  next
    case (Suc i')
    with Cons.prems(3) have "i' < length fns" by simp
    from Cons.IH[OF lt2 rest this] obtain sm ts q r where
      b1: "launch h call e p j sp wi (take i' fns) ?c = Some (sm, ts)"
      and b2: "call (fns ! i') (arguments sm sp wi e p (fns ! i'))
            (sm\<lparr>trace := trace sm @ [Invoke (FromEmit j) (fns ! i') (arguments sm sp wi e p (fns ! i'))]\<rparr>)
          = Some (q, r)"
      and b3: "launch h call e p j sp wi (take (Suc i') fns) ?c
          = Some (ended j (fns ! i') r q, ts @ [task_of h r])"
      and b4: "dispatched j (added ?c s') ! i' = (fns ! i', arguments sm sp wi e p (fns ! i'))"
      and b5: "completions j (added ?c s') ! i' = (fns ! i', r)"
      by blast
    have t0: "launch h call e p j sp wi (take (Suc i') (f # fns)) s = Some (sm, task_of h r0 # ts)"
      unfolding take_Suc_Cons launch_step using d0 b1 by simp
    have t1: "launch h call e p j sp wi (take (Suc (Suc i')) (f # fns)) s
        = Some (ended j ((f # fns) ! Suc i') r q, (task_of h r0 # ts) @ [task_of h r])"
      unfolding take_Suc_Cons launch_step using d0 b3 by simp
    have r1: "dispatched j (added s s') ! Suc i'
        = ((f # fns) ! Suc i', arguments sm sp wi e p ((f # fns) ! Suc i'))"
      unfolding a using ys(2) b4[unfolded a2] by simp
    have r2: "completions j (added s s') ! Suc i' = ((f # fns) ! Suc i', r)"
      unfolding a using ys(3) b5[unfolded a2] by simp
    from b2 have b2': "call ((f # fns) ! Suc i') (arguments sm sp wi e p ((f # fns) ! Suc i'))
        (sm\<lparr>trace := trace sm @ [Invoke (FromEmit j) ((f # fns) ! Suc i')
              (arguments sm sp wi e p ((f # fns) ! Suc i'))]\<rparr>) = Some (q, r)"
      by simp
    show ?thesis unfolding Suc
      by (rule exI[of _ sm], rule exI[of _ "task_of h r0 # ts"], rule exI[of _ q], rule exI[of _ r])
         (intro conjI t0 b2' t1 r1 r2)
  qed
qed

text \<open>The call returns when each application returns in the state it is made from.\<close>

lemma launch_returns:
  "(\<forall>i < length fns. \<forall>sm ts. launch h call e p j sp wi (take i fns) s = Some (sm, ts)
       \<longrightarrow> call (fns ! i) (arguments sm sp wi e p (fns ! i))
             (sm\<lparr>trace := trace sm @ [Invoke (FromEmit j) (fns ! i) (arguments sm sp wi e p (fns ! i))]\<rparr>)
           \<noteq> None)
   \<Longrightarrow> launch h call e p j sp wi fns s \<noteq> None"
proof (induction fns rule: rev_induct)
  case Nil
  show ?case by simp
next
  case (snoc x xs)
  have "\<forall>i < length xs. \<forall>sm ts. launch h call e p j sp wi (take i xs) s = Some (sm, ts)
       \<longrightarrow> call (xs ! i) (arguments sm sp wi e p (xs ! i))
             (sm\<lparr>trace := trace sm @ [Invoke (FromEmit j) (xs ! i) (arguments sm sp wi e p (xs ! i))]\<rparr>)
           \<noteq> None"
  proof (intro allI impI)
    fix i sm ts
    assume i: "i < length xs" and r: "launch h call e p j sp wi (take i xs) s = Some (sm, ts)"
    from i have e1: "take i (xs @ [x]) = take i xs" and e2: "(xs @ [x]) ! i = xs ! i"
      by (simp_all add: nth_append)
    from i have "i < length (xs @ [x])" by simp
    from snoc.prems[rule_format, OF this, of sm ts] r
    show "call (xs ! i) (arguments sm sp wi e p (xs ! i))
             (sm\<lparr>trace := trace sm @ [Invoke (FromEmit j) (xs ! i) (arguments sm sp wi e p (xs ! i))]\<rparr>)
           \<noteq> None"
      unfolding e1 e2 by simp
  qed
  from snoc.IH[OF this] obtain sm ts where sm: "launch h call e p j sp wi xs s = Some (sm, ts)"
    by auto
  have e1: "take (length xs) (xs @ [x]) = xs" and e2: "(xs @ [x]) ! length xs = x" by simp_all
  have "length xs < length (xs @ [x])" by simp
  from snoc.prems[rule_format, OF this, of sm ts] sm
  have "call x (arguments sm sp wi e p x)
          (sm\<lparr>trace := trace sm @ [Invoke (FromEmit j) x (arguments sm sp wi e p x)]\<rparr>) \<noteq> None"
    unfolding e1 e2 by simp
  then show ?case unfolding launch_snoc using sm by (auto split: option.splits)
qed

text \<open>The promise kept for a listener, and what the listener contributes to the result.\<close>

lemma task_pending_iff: "task_of h r = Pending \<longleftrightarrow> outcome_of h r = None"
  by (cases "(h, r)" rule: outcome_of.cases)
     (auto simp: task_of_def promise_resolve_def split: settle.splits if_splits)

lemma task_status:
  "task_of h r \<noteq> Pending \<Longrightarrow>
     Some (case task_of h r of Rejected reason \<Rightarrow> StatusRejected reason
             | Fulfilled v \<Rightarrow> StatusFulfilled v
             | Pending \<Rightarrow> StatusFulfilled Undefined) = outcome_of h r"
  by (cases "(h, r)" rule: outcome_of.cases)
     (auto simp: task_of_def promise_resolve_def split: settle.splits if_splits)

lemma allSettled_not_rejected: "allSettled ts \<noteq> Rejected err"
  by (simp add: allSettled_def)

lemma allSettled_pending_iff:
  "allSettled (map (task_of h) rs) = Pending \<longleftrightarrow> (\<exists>r \<in> set rs. outcome_of h r = None)"
proof -
  have "Pending \<in> set (map (task_of h) rs) \<longleftrightarrow> (\<exists>r \<in> set rs. task_of h r = Pending)"
    by (induction rs) auto
  then show ?thesis by (simp add: allSettled_def task_pending_iff)
qed

lemma allSettled_fulfilled:
  assumes "allSettled (map (task_of h) rs) = Fulfilled outs"
  shows "map Some outs = map (outcome_of h) rs"
proof -
  from assms have n: "Pending \<notin> set (map (task_of h) rs)"
    and o: "outs = map (\<lambda>t. case t of Rejected reason \<Rightarrow> StatusRejected reason
                             | Fulfilled v \<Rightarrow> StatusFulfilled v
                             | Pending \<Rightarrow> StatusFulfilled Undefined) (map (task_of h) rs)"
    by (simp_all add: allSettled_def split: if_splits)
  from n have "\<forall>r \<in> set rs. task_of h r \<noteq> Pending" by (induction rs) auto
  then have "\<forall>r \<in> set rs. Some (case task_of h r of Rejected reason \<Rightarrow> StatusRejected reason
             | Fulfilled v \<Rightarrow> StatusFulfilled v
             | Pending \<Rightarrow> StatusFulfilled Undefined) = outcome_of h r"
    using task_status by blast
  then show ?thesis unfolding o by (induction rs) simp_all
qed

lemma emitAsync_main:
  assumes x: "emitAsync h prog n (Str e) p s = Some (s', res)"
  shows "map fst (dispatched (emitSeq s) (added s s')) = delivery s e"
    and "map fst (completions (emitSeq s) (added s s')) = delivery s e"
    and "res = allSettled (map (task_of h) (map snd (completions (emitSeq s) (added s s'))))"
proof -
  let ?C = "completions (emitSeq s) (added s s')"
  note k = invoke_sat[OF closed_under_later, of h prog n]
  from x have x': "emitAsync_with h (invoke h prog n) (Str e) p s = Some (s', res)"
    by (simp add: emitAsync_def)
  have main: "map fst (dispatched (emitSeq s) (added s s')) = delivery s e
    \<and> map fst ?C = delivery s e
    \<and> res = allSettled (map (task_of h) (map snd ?C))"
    using x'
  proof (cases rule: emitAsync_with_cases)
    case (invalid err)
    then show ?thesis by (simp add: validateEventName_def)
  next
    case (nobody e')
    then show ?thesis by (simp add: added_def delivery_nobody allSettled_def)
  next
    case (loop e' tasks)
    then have e': "e' = e" by simp
    let ?s0 = "s\<lparr>emitSeq := Suc (emitSeq s)\<rparr>"
    have lt: "emitSeq s < emitSeq ?s0" by simp
    from launch_record[OF k lt loop(4)[unfolded e']] obtain ys where
      ys: "trace s' = trace ?s0 @ ys" "map fst (dispatched (emitSeq s) ys) = delivery s e"
        "map fst (completions (emitSeq s) ys) = delivery s e"
        "tasks = map (\<lambda>c. task_of h (snd c)) (completions (emitSeq s) ys)"
      by blast
    from ys(1) have "added s s' = ys" by (simp add: added_def)
    with ys loop(2) show ?thesis by (simp add: comp_def)
  qed
  from main show "map fst (dispatched (emitSeq s) (added s s')) = delivery s e" by simp
  from main show "map fst ?C = delivery s e" by simp
  from main show "res = allSettled (map (task_of h) (map snd ?C))" by simp
qed

lemma emitAsync_rounds:
  assumes x: "emitAsync h prog n (Str e) p s = Some (s', res)" and i: "i < length (delivery s e)"
  shows "\<exists>sm ts q r. launched h prog n e p s i = Some (sm, ts)
       \<and> applied h prog n (emitSeq s) (delivery s e ! i) (given s e p sm (delivery s e ! i)) sm
            = Some (q, r)
       \<and> launched h prog n e p s (Suc i)
            = Some (ended (emitSeq s) (delivery s e ! i) r q, ts @ [task_of h r])
       \<and> completions (emitSeq s) (added s s') ! i = (delivery s e ! i, r)"
proof -
  note k = invoke_sat[OF closed_under_later, of h prog n]
  from x have "emitAsync_with h (invoke h prog n) (Str e) p s = Some (s', res)"
    by (simp add: emitAsync_def)
  then show ?thesis
  proof (cases rule: emitAsync_with_cases)
    case (invalid err)
    then show ?thesis by (simp add: validateEventName_def)
  next
    case (nobody e')
    with i show ?thesis by (simp add: delivery_nobody)
  next
    case (loop e' tasks)
    then have e': "e' = e" by simp
    let ?s0 = "s\<lparr>emitSeq := Suc (emitSeq s)\<rparr>"
    have lt: "emitSeq s < emitSeq ?s0" by simp
    have ad: "added ?s0 s' = added s s'" by (simp add: added_def)
    from launch_rounds[OF k lt loop(4)[unfolded e'] i]
    show ?thesis unfolding launched_def applied_def given_def ad by blast
  qed
qed

lemma emitAsync_returns:
  assumes "\<forall>i < length (delivery s e). \<forall>sm ts. launched h prog n e p s i = Some (sm, ts)
             \<longrightarrow> applied h prog n (emitSeq s) (delivery s e ! i) (given s e p sm (delivery s e ! i)) sm
                   \<noteq> None"
  shows "\<exists>s' res. emitAsync h prog n (Str e) p s = Some (s', res)"
proof -
  from launch_returns[OF assms[unfolded launched_def applied_def given_def]] obtain s' tasks where
    "launch h (invoke h prog n) e p (emitSeq s) (map_get (listenersMap s) e)
       (map_get (listenersMap s) ''*'') (delivery s e) (s\<lparr>emitSeq := Suc (emitSeq s)\<rparr>) = Some (s', tasks)"
    by auto
  then show ?thesis
    by (simp add: emitAsync_def emitAsync_with_def validateEventName_def Let_def)
qed

subsection \<open>Every listener is launched and gets its outcome\<close>

text \<open>
  C4. A call \<open>emitAsync(e, p)\<close> that returns has applied every member of the delivery
  set in order: in each round the listener is applied in the state the round before
  left, whether the listeners before it returned, threw or returned a promise that
  rejects, and one promise is kept for it. The promise of the call never rejects: it
  stays pending exactly when what some listener returned never settles, and
  resolves otherwise with one outcome for each listener in order, a failure for a
  listener that threw or whose promise rejects and a success for any other. The call
  does return when each application returns or throws in the state it is made from.
\<close>

theorem emitAsync_settles_every_listener:
  "(emitAsync h prog n (Str e) p s = Some (s', res) \<longrightarrow>
       map fst (dispatched (emitSeq s) (added s s')) = delivery s e
     \<and> map fst (completions (emitSeq s) (added s s')) = delivery s e
     \<and> (\<forall>i < length (delivery s e). \<exists>sm ts q r.
            launched h prog n e p s i = Some (sm, ts)
          \<and> applied h prog n (emitSeq s) (delivery s e ! i) (given s e p sm (delivery s e ! i)) sm
               = Some (q, r)
          \<and> launched h prog n e p s (Suc i)
               = Some (ended (emitSeq s) (delivery s e ! i) r q, ts @ [task_of h r])
          \<and> completions (emitSeq s) (added s s') ! i = (delivery s e ! i, r))
     \<and> (\<forall>err. res \<noteq> Rejected err)
     \<and> (res = Pending \<longleftrightarrow>
          (\<exists>c \<in> set (completions (emitSeq s) (added s s')). outcome_of h (snd c) = None))
     \<and> (\<forall>outs. res = Fulfilled outs \<longrightarrow>
          map Some outs = map (\<lambda>c. outcome_of h (snd c)) (completions (emitSeq s) (added s s'))))
   \<and> ((\<forall>i < length (delivery s e). \<forall>sm ts. launched h prog n e p s i = Some (sm, ts)
          \<longrightarrow> applied h prog n (emitSeq s) (delivery s e ! i) (given s e p sm (delivery s e ! i)) sm
                \<noteq> None)
        \<longrightarrow> (\<exists>s' res. emitAsync h prog n (Str e) p s = Some (s', res)))"
proof (intro conjI impI allI)
  let ?C = "completions (emitSeq s) (added s s')"
  assume x: "emitAsync h prog n (Str e) p s = Some (s', res)"
  note res = emitAsync_main(3)[OF x]
  show "map fst (dispatched (emitSeq s) (added s s')) = delivery s e" by (rule emitAsync_main(1)[OF x])
  show "map fst ?C = delivery s e" by (rule emitAsync_main(2)[OF x])
  show "res \<noteq> Rejected err" for err unfolding res by (rule allSettled_not_rejected)
  have "res = Pending \<longleftrightarrow> (\<exists>r \<in> set (map snd ?C). outcome_of h r = None)"
    unfolding res by (rule allSettled_pending_iff)
  then show "res = Pending \<longleftrightarrow> (\<exists>c \<in> set ?C. outcome_of h (snd c) = None)" by simp
  show "map Some outs = map (\<lambda>c. outcome_of h (snd c)) ?C" if "res = Fulfilled outs" for outs
  proof -
    from that have "allSettled (map (task_of h) (map snd ?C)) = Fulfilled outs" unfolding res .
    from allSettled_fulfilled[OF this] show ?thesis by (simp add: comp_def)
  qed
  fix i assume "i < length (delivery s e)"
  then show "\<exists>sm ts q r. launched h prog n e p s i = Some (sm, ts)
          \<and> applied h prog n (emitSeq s) (delivery s e ! i) (given s e p sm (delivery s e ! i)) sm
               = Some (q, r)
          \<and> launched h prog n e p s (Suc i)
               = Some (ended (emitSeq s) (delivery s e ! i) r q, ts @ [task_of h r])
          \<and> completions (emitSeq s) (added s s') ! i = (delivery s e ! i, r)"
    by (rule emitAsync_rounds[OF x])
next
  assume "\<forall>i < length (delivery s e). \<forall>sm ts. launched h prog n e p s i = Some (sm, ts)
          \<longrightarrow> applied h prog n (emitSeq s) (delivery s e ! i) (given s e p sm (delivery s e ! i)) sm
                \<noteq> None"
  then show "\<exists>s' res. emitAsync h prog n (Str e) p s = Some (s', res)"
    by (rule emitAsync_returns)
qed

lemmas async_eval = emitAsync_def emitAsync_with_def launched_def task_of_def promise_resolve_def
  thenable_def allSettled_def example_host_def

lemma five_listeners_facts:
  "delivery five_listeners ''x'' = [Handler 3, Handler 4, Handler 1, Wrapper 0, Handler 9]"
  "emitSeq five_listeners = 0"
  by (simp_all add: five_listeners_def registry_eval)

lemma five_listeners_result:
  "map_option snd (emitAsync example_host example_program (Suc (Suc 0)) (Str ''x'') (Num 7) five_listeners)
     = Some (Fulfilled [StatusRejected (Error ''rejected''), StatusFulfilled (Num 5),
                        StatusRejected (Error ''boom''), StatusFulfilled Undefined,
                        StatusFulfilled (Num 1)])"
  by (simp add: five_listeners_def registry_eval delivery_eval async_eval example_program_def)

lemma five_listeners_rounds:
  "map_option (\<lambda>x. map_option snd
       (applied example_host example_program (Suc (Suc 0)) 0 (Handler 3)
          (given five_listeners ''x'' (Num 7) (fst x) (Handler 3)) (fst x)))
     (launched example_host example_program (Suc (Suc 0)) ''x'' (Num 7) five_listeners 0)
   = Some (Some (Inr (Promise (Rejected (Error ''rejected'')))))"
  "map_option (\<lambda>x. map_option snd
       (applied example_host example_program (Suc (Suc 0)) 0 (Handler 4)
          (given five_listeners ''x'' (Num 7) (fst x) (Handler 4)) (fst x)))
     (launched example_host example_program (Suc (Suc 0)) ''x'' (Num 7) five_listeners (Suc 0))
   = Some (Some (Inr (Promise (Fulfilled (Num 5)))))"
  "map_option (\<lambda>x. map_option snd
       (applied example_host example_program (Suc (Suc 0)) 0 (Handler 1)
          (given five_listeners ''x'' (Num 7) (fst x) (Handler 1)) (fst x)))
     (launched example_host example_program (Suc (Suc 0)) ''x'' (Num 7) five_listeners (Suc (Suc 0)))
   = Some (Some (Inl (Error ''boom'')))"
  "map_option (\<lambda>x. map_option snd
       (applied example_host example_program (Suc (Suc 0)) 0 (Wrapper 0)
          (given five_listeners ''x'' (Num 7) (fst x) (Wrapper 0)) (fst x)))
     (launched example_host example_program (Suc (Suc 0)) ''x'' (Num 7) five_listeners (Suc (Suc (Suc 0))))
   = Some (Some (Inr Undefined))"
  "map_option (\<lambda>x. map_option snd
       (applied example_host example_program (Suc (Suc 0)) 0 (Handler 9)
          (given five_listeners ''x'' (Num 7) (fst x) (Handler 9)) (fst x)))
     (launched example_host example_program (Suc (Suc 0)) ''x'' (Num 7) five_listeners
        (Suc (Suc (Suc (Suc 0)))))
   = Some (Some (Inr (Obj [(''then'', Fn (Handler 0))])))"
  by (simp_all add: five_listeners_def registry_eval delivery_eval async_eval example_program_def)

theorem emitAsync_settles_every_listener_witness:
  "\<exists>s'. emitAsync example_host example_program (Suc (Suc 0)) (Str ''x'') (Num 7) five_listeners
        = Some (s', Fulfilled [StatusRejected (Error ''rejected''), StatusFulfilled (Num 5),
                               StatusRejected (Error ''boom''), StatusFulfilled Undefined,
                               StatusFulfilled (Num 1)])
      \<and> map fst (dispatched 0 (added five_listeners s'))
          = [Handler 3, Handler 4, Handler 1, Wrapper 0, Handler 9]
      \<and> map (\<lambda>c. outcome_of example_host (snd c)) (completions 0 (added five_listeners s'))
          = [Some (StatusRejected (Error ''rejected'')), Some (StatusFulfilled (Num 5)),
             Some (StatusRejected (Error ''boom'')), Some (StatusFulfilled Undefined),
             Some (StatusFulfilled (Num 1))]
      \<and> (\<exists>sm ts q. launched example_host example_program (Suc (Suc 0)) ''x'' (Num 7) five_listeners
                       (Suc (Suc 0)) = Some (sm, ts)
            \<and> applied example_host example_program (Suc (Suc 0)) 0 (Handler 1)
                  (given five_listeners ''x'' (Num 7) sm (Handler 1)) sm = Some (q, Inl (Error ''boom''))
            \<and> launched example_host example_program (Suc (Suc 0)) ''x'' (Num 7) five_listeners
                  (Suc (Suc (Suc 0)))
                = Some (ended 0 (Handler 1) (Inl (Error ''boom'')) q, ts @ [Rejected (Error ''boom'')]))"
proof -
  let ?n = "Suc (Suc 0)"
  let ?S = "five_listeners"
  let ?F = "[Handler 3, Handler 4, Handler 1, Wrapper 0, Handler 9]"
  let ?res = "Fulfilled [StatusRejected (Error ''rejected''), StatusFulfilled (Num 5),
                         StatusRejected (Error ''boom''), StatusFulfilled Undefined,
                         StatusFulfilled (Num 1)]"
  note th0 = emitAsync_settles_every_listener[of example_host example_program ?n "''x''" "Num 7" ?S,
      unfolded five_listeners_facts]
  have ret: "\<forall>i < length ?F.
      \<forall>sm ts. launched example_host example_program ?n ''x'' (Num 7) ?S i = Some (sm, ts)
        \<longrightarrow> applied example_host example_program ?n 0 (?F ! i) (given ?S ''x'' (Num 7) sm (?F ! i)) sm
              \<noteq> None"
  proof (intro allI impI)
    fix i sm ts
    assume "i < length ?F"
      and r: "launched example_host example_program ?n ''x'' (Num 7) ?S i = Some (sm, ts)"
    then consider "i = 0" | "i = Suc 0" | "i = Suc (Suc 0)" | "i = Suc (Suc (Suc 0))"
      | "i = Suc (Suc (Suc (Suc 0)))"
      by (auto simp: less_Suc_eq)
    then show "applied example_host example_program ?n 0 (?F ! i) (given ?S ''x'' (Num 7) sm (?F ! i)) sm
        \<noteq> None"
    proof cases
      case 1
      with r five_listeners_rounds(1) show ?thesis by auto
    next
      case 2
      with r five_listeners_rounds(2) show ?thesis by auto
    next
      case 3
      with r five_listeners_rounds(3) show ?thesis by auto
    next
      case 4
      with r five_listeners_rounds(4) show ?thesis by auto
    next
      case 5
      with r five_listeners_rounds(5) show ?thesis by auto
    qed
  qed
  from th0[THEN conjunct2, THEN mp, OF ret] five_listeners_result obtain s' where
    e: "emitAsync example_host example_program ?n (Str ''x'') (Num 7) ?S = Some (s', ?res)"
    by auto
  note th = th0[of s' ?res, THEN conjunct1, THEN mp, OF e]
  have a: "map fst (dispatched 0 (added ?S s')) = ?F"
    by (rule th[THEN conjunct1])
  from th[THEN conjunct2, THEN conjunct2, THEN conjunct2, THEN conjunct2, THEN conjunct2]
  have b: "map (\<lambda>c. outcome_of example_host (snd c)) (completions 0 (added ?S s'))
          = [Some (StatusRejected (Error ''rejected'')), Some (StatusFulfilled (Num 5)),
             Some (StatusRejected (Error ''boom'')), Some (StatusFulfilled Undefined),
             Some (StatusFulfilled (Num 1))]"
    by simp
  have "Suc (Suc 0) < length ?F" by simp
  from th[THEN conjunct2, THEN conjunct2, THEN conjunct1, rule_format, OF this]
  obtain sm ts q r where
    r0: "launched example_host example_program ?n ''x'' (Num 7) ?S (Suc (Suc 0)) = Some (sm, ts)"
    and r1: "applied example_host example_program ?n 0 (?F ! Suc (Suc 0))
        (given ?S ''x'' (Num 7) sm (?F ! Suc (Suc 0))) sm = Some (q, r)"
    and r2: "launched example_host example_program ?n ''x'' (Num 7) ?S (Suc (Suc (Suc 0)))
        = Some (ended 0 (?F ! Suc (Suc 0)) r q, ts @ [task_of example_host r])"
    by blast
  from r0 r1 five_listeners_rounds(3) have r: "r = Inl (Error ''boom'')" by simp
  have c: "\<exists>sm ts q. launched example_host example_program ?n ''x'' (Num 7) ?S (Suc (Suc 0)) = Some (sm, ts)
            \<and> applied example_host example_program ?n 0 (Handler 1)
                  (given ?S ''x'' (Num 7) sm (Handler 1)) sm = Some (q, Inl (Error ''boom''))
            \<and> launched example_host example_program ?n ''x'' (Num 7) ?S (Suc (Suc (Suc 0)))
                = Some (ended 0 (Handler 1) (Inl (Error ''boom'')) q, ts @ [Rejected (Error ''boom'')])"
    using r0 r1 r2 unfolding r
    by (intro exI[of _ sm] exI[of _ ts] exI[of _ q]) (simp add: task_of_def)
  show ?thesis
    by (rule exI[of _ s']) (intro conjI e a b c)
qed

section \<open>Properties of the staged loader\<close>

lemma loader_ok_initial: "loader_ok initial"
  by (simp add: loader_ok_def initial_def)

lemma keeps_loader_ok_same:
  "importCalls s' = importCalls s \<Longrightarrow> importedModules s' = importedModules s \<Longrightarrow> keeps loader_ok s s'"
  by (simp add: keeps_def loader_ok_def)

text \<open>What a call of \<open>importModule\<close> does to the two lists.\<close>

lemma importModule_known:
  "x \<in> set (importedModules s) \<Longrightarrow> importModule h x s = (s, Fulfilled ())"
  by (simp add: importModule_def)

lemma importModule_new:
  assumes "x \<notin> set (importedModules s)"
  shows "importedModules (fst (importModule h x s)) = importedModules s @ [x]"
    and "importCalls (fst (importModule h x s)) = importCalls s @ [x]"
  using assms by (simp_all add: importModule_def Let_def set_add_def split: settle.splits)

lemma importModule_loader_ok:
  assumes "loader_ok s"
  shows "loader_ok (fst (importModule h x s))"
proof (cases "x \<in> set (importedModules s)")
  case True
  with assms show ?thesis by (simp add: importModule_known)
next
  case False
  with assms show ?thesis by (auto simp: loader_ok_def importModule_new)
qed

lemma importAll_loader_ok: "loader_ok s \<Longrightarrow> loader_ok (fst (importAll h xs s))"
proof (induction xs arbitrary: s)
  case Nil
  then show ?case by simp
next
  case (Cons x xs)
  from Cons.IH[OF importModule_loader_ok[OF Cons.prems]] show ?case
    unfolding importAll_step .
qed

lemma loader_ok_cong:
  "importCalls s' = importCalls s \<Longrightarrow> importedModules s' = importedModules s
     \<Longrightarrow> loader_ok s' = loader_ok s"
  by (simp add: loader_ok_def)

lemma importPhase_loader_ok:
  assumes "loader_ok s"
  shows "loader_ok (fst (importPhase h ph s))"
proof -
  let ?s2 = "(if ph = RUNTIME
      then (if ph = BOOTSTRAP then s\<lparr>bootstrapCompleted := True\<rparr> else s)\<lparr>runtimeCompleted := True\<rparr>
      else (if ph = BOOTSTRAP then s\<lparr>bootstrapCompleted := True\<rparr> else s))"
  let ?xs = "map (\<lambda>entry. fst (snd entry)) (filter (\<lambda>entry. snd (snd entry) = ph) (moduleQueue s))"
  have "loader_ok ?s2" using assms by (simp add: loader_ok_def)
  then have a: "loader_ok (fst (importAll h ?xs ?s2))" by (rule importAll_loader_ok)
  have "importCalls (fst (importPhase h ph s)) = importCalls (fst (importAll h ?xs ?s2))
      \<and> importedModules (fst (importPhase h ph s)) = importedModules (fst (importAll h ?xs ?s2))"
    by (simp add: importPhase_def Let_def split_beta)
  with a show ?thesis by (simp add: loader_ok_def)
qed

lemma registerModule_loader_ok:
  assumes "loader_ok s"
  shows "loader_ok (fst (registerModule h x opts s))"
proof (cases rule: registerModule_cases[of h x opts s])
  case (throws err)
  with assms show ?thesis by simp
next
  case (queued x' y)
  with assms show ?thesis by (simp add: loader_ok_def)
next
  case (loaded x' y)
  let ?q = "s\<lparr>moduleQueue := moduleQueue s @ [(nextEntry s, y, normalizePhase (phase opts) (beforeLoad opts))],
               nextEntry := Suc (nextEntry s)\<rparr>"
  have "loader_ok ?q" using assms by (simp add: loader_ok_def)
  then have "loader_ok (fst (importModule h y ?q))" by (rule importModule_loader_ok)
  with loaded(4) show ?thesis by simp
qed

lemma initialize_loader_ok:
  assumes "loader_ok s"
  shows "loader_ok (initialize h s)"
proof (cases "initialized s")
  case True
  with assms show ?thesis by (simp add: initialize_def)
next
  case False
  let ?s2 = "setupWatchdogGuard h (s\<lparr>initialized := True\<rparr>)"
  have "loader_ok ?s2" using assms by (simp add: loader_ok_def setupWatchdogGuard_def)
  then have "loader_ok (fst (importPhase h BOOTSTRAP ?s2))" by (rule importPhase_loader_ok)
  with False show ?thesis by (simp add: initialize_def Let_def loader_ok_def)
qed

lemma elementary_keeps_loader_ok: "elementary (keeps loader_ok)"
  unfolding elementary_def basic_def tagged_def
proof (intro conjI allI impI)
  show "\<And>a b c. keeps loader_ok a b \<Longrightarrow> keeps loader_ok b c \<Longrightarrow> keeps loader_ok a c"
    by (rule keeps_trans)
qed (rule keeps_loader_ok_same; simp)+

lemma host_closed_loader_ok: "host_closed h (keeps loader_ok)"
  unfolding host_closed_def
proof (intro conjI allI)
  show "closed_under h (keeps loader_ok)"
  proof (rule closed_under_elementary[OF elementary_keeps_loader_ok])
    show "\<And>x opts s. keeps loader_ok s (fst (registerModule h x opts s))"
      by (simp add: keeps_def registerModule_loader_ok)
    show "\<And>s. keeps loader_ok s (initialize h s)"
      by (simp add: keeps_def initialize_loader_ok)
  qed (rule keeps_loader_ok_same; simp)+
  show "\<And>s ph. keeps loader_ok s (fst (importPhase h ph s))"
    by (simp add: keeps_def importPhase_loader_ok)
qed (rule keeps_loader_ok_same; simp)+

lemma run_ops_loader_ok: "run_ops h prog n xs initial = Some s \<Longrightarrow> loader_ok s"
  using run_ops_sat[OF host_closed_loader_ok, of h prog n xs initial s] loader_ok_initial
  by (simp add: keeps_def)

lemma distinct_count_le_1: "distinct xs \<Longrightarrow> count_list xs x \<le> 1"
  by (induction xs) (auto simp: count_list_0_iff)

subsection \<open>A specifier is loaded at most once\<close>

text \<open>
  C5. After any sequence of operations from the initial state, the load capability
  has been called at most once for a resolved specifier \<open>x\<close>; and once it has been
  called for \<open>x\<close>, neither a registration that resolves to \<open>x\<close>, nor loading \<open>x\<close>, nor a
  batch load of a phase calls it for \<open>x\<close> again.
\<close>

theorem load_capability_called_at_most_once:
  assumes reach: "run_ops h prog n xs initial = Some s"
  shows "count_list (importCalls s) x \<le> 1
     \<and> (x \<in> set (importCalls s) \<longrightarrow>
          (\<forall>sp opts x'. validateModuleSpecifier sp = Inr x'
              \<longrightarrow> resolveModuleSpecifier h x' (anchor opts) = Inr x
              \<longrightarrow> importCalls (fst (registerModule h sp opts s)) = importCalls s)
          \<and> importCalls (fst (importModule h x s)) = importCalls s
          \<and> (\<forall>ph. count_list (importCalls (fst (importPhase h ph s))) x = 1))"
proof -
  from reach have ok: "loader_ok s" by (rule run_ops_loader_ok)
  then have "distinct (importCalls s)" by (simp add: loader_ok_def)
  then have a: "count_list (importCalls s) x \<le> 1" by (rule distinct_count_le_1)
  have known: "x \<in> set (importedModules s)" if "x \<in> set (importCalls s)"
    using that ok by (simp add: loader_ok_def)
  have b: "importCalls (fst (registerModule h sp opts s)) = importCalls s"
    if x: "x \<in> set (importCalls s)" and v: "validateModuleSpecifier sp = Inr x'"
      and r: "resolveModuleSpecifier h x' (anchor opts) = Inr x"
    for sp and opts :: module_options and x'
  proof (cases rule: registerModule_cases[of h sp opts s])
    case (throws err)
    then show ?thesis by simp
  next
    case (queued x'' y)
    then show ?thesis by simp
  next
    case (loaded x'' y)
    with v r have y: "y = x" by simp
    let ?q = "s\<lparr>moduleQueue := moduleQueue s @ [(nextEntry s, x, normalizePhase (phase opts) (beforeLoad opts))],
                 nextEntry := Suc (nextEntry s)\<rparr>"
    from known[OF x] have "x \<in> set (importedModules ?q)" by simp
    then have "importModule h x ?q = (?q, Fulfilled ())" by (rule importModule_known)
    with loaded(4) y show ?thesis by simp
  qed
  have c: "importCalls (fst (importModule h x s)) = importCalls s" if "x \<in> set (importCalls s)"
    using known[OF that] by (simp add: importModule_known)
  have d: "count_list (importCalls (fst (importPhase h ph s))) x = 1"
    if x: "x \<in> set (importCalls s)" for ph
  proof -
    let ?s' = "fst (importPhase h ph s)"
    have "loader_ok ?s'" using ok by (rule importPhase_loader_ok)
    then have "distinct (importCalls ?s')" by (simp add: loader_ok_def)
    then have le: "count_list (importCalls ?s') x \<le> 1" by (rule distinct_count_le_1)
    have m: "x \<in> set (importCalls q) \<Longrightarrow> x \<in> set (importCalls (fst (importModule h y q)))" for y q
      by (cases "y \<in> set (importedModules q)") (simp_all add: importModule_known importModule_new)
    have al: "x \<in> set (importCalls q) \<Longrightarrow> x \<in> set (importCalls (fst (importAll h ys q)))" for ys q
    proof (induction ys arbitrary: q)
      case Nil then show ?case by simp
    next
      case (Cons y ys)
      from Cons.IH[OF m[OF Cons.prems]] show ?case unfolding importAll_step .
    qed
    let ?s2 = "(if ph = RUNTIME
      then (if ph = BOOTSTRAP then s\<lparr>bootstrapCompleted := True\<rparr> else s)\<lparr>runtimeCompleted := True\<rparr>
      else (if ph = BOOTSTRAP then s\<lparr>bootstrapCompleted := True\<rparr> else s))"
    let ?xs = "map (\<lambda>entry. fst (snd entry)) (filter (\<lambda>entry. snd (snd entry) = ph) (moduleQueue s))"
    have e: "importCalls ?s' = importCalls (fst (importAll h ?xs ?s2))"
      by (simp add: importPhase_def Let_def split_beta)
    have "x \<in> set (importCalls (fst (importAll h ?xs ?s2)))"
      by (rule al) (use x in simp)
    then have "count_list (importCalls ?s') x \<noteq> 0" unfolding e by (simp add: count_list_0_iff)
    with le show ?thesis by simp
  qed
  from a b c d show ?thesis by blast
qed

lemma plain_specifier:
  "validateModuleSpecifier (Str ''a'') = Inr ''a''"
  "resolveModuleSpecifier example_host ''a'' (anchor bootstrap_options) = Inr ''a''"
  "validateModuleSpecifier (Str ''b'') = Inr ''b''"
  "resolveModuleSpecifier example_host ''b'' (anchor runtime_options) = Inr ''b''"
  "normalizePhase (phase runtime_options) (beforeLoad runtime_options) = RUNTIME"
  by code_simp+

lemma loader_session_calls:
  "map_option importCalls (run_ops example_host example_program 0 loader_session initial) = Some [''a'']"
  by code_simp

theorem load_capability_called_at_most_once_witness:
  "\<exists>s. run_ops example_host example_program 0 loader_session initial = Some s
      \<and> importCalls s = [''a'']
      \<and> count_list (importCalls s) ''a'' \<le> 1
      \<and> importCalls (fst (registerModule example_host (Str ''a'') bootstrap_options s)) = importCalls s"
proof -
  from loader_session_calls obtain s where
    r: "run_ops example_host example_program 0 loader_session initial = Some s"
    and c: "importCalls s = [''a'']"
    by (cases "run_ops example_host example_program 0 loader_session initial") simp_all
  note th = load_capability_called_at_most_once[OF r, of "''a''"]
  have i: "''a'' \<in> set (importCalls s)" unfolding c by simp
  from th[THEN conjunct2, THEN mp, OF i, THEN conjunct1, THEN spec, THEN spec, THEN spec,
      THEN mp, OF plain_specifier(1), THEN mp, OF plain_specifier(2)]
  have g: "importCalls (fst (registerModule example_host (Str ''a'') bootstrap_options s)) = importCalls s" .
  show ?thesis
    by (rule exI[of _ s]) (intro conjI r c th[THEN conjunct1] g)
qed

subsection \<open>Registration after the phase has run\<close>



lemmas loader_eval = registerModule_def validateModuleSpecifier_def resolveModuleSpecifier_def
  normalizePhase_def trim_def is_space_def isAbsolute_def startsWith_def is_letter_def falsy_def
  importModule_def importPhase_def initialize_def setupWatchdogGuard_def attachMinecraftEvents_def
  worldLoad_with_def emit_with_def validateEventName_def gate_def thrown_def set_add_def
  is_rejected_def example_host_def runtime_options_def bootstrap_options_def initial_def Let_def




subsection \<open>A batch with a failing load\<close>

lemma importModule_fulfils: "\<not> is_rejected (snd (importModule h x s))"
  by (simp add: importModule_def is_rejected_def Let_def split: settle.splits)

lemma importAll_fulfils: "\<forall>r \<in> set (snd (importAll h xs s)). \<not> is_rejected r"
proof (induction xs arbitrary: s)
  case Nil
  show ?case by simp
next
  case (Cons x xs)
  from Cons.IH[of "fst (importModule h x s)"] importModule_fulfils[of h x s]
  show ?case by (simp add: split_beta)
qed

text \<open>
  The promise of \<open>importModule\<close> never rejects, since the function catches the failure of
  the load itself: \<open>importPhase\<close> finds no rejected result and never writes its summary.
\<close>

lemma importPhase_counts_nothing:
  "filter is_rejected (snd (importAll h xs s)) = []"
  using importAll_fulfils[of h xs s] by (simp add: filter_empty_conv)

text \<open>
  C7. The module calls \<open>initialize\<close> when it is loaded, which runs the batch of the
  bootstrap phase on an empty queue. With \<open>bad\<close> and \<open>good\<close> registered after that for
  the runtime phase and the load of \<open>bad\<close> failing, the host's readiness event runs the
  batch of the runtime phase: the load capability is called for both, but the console
  gets the line of the failed load only, and no summary with the count of failed
  loads.
\<close>

theorem failed_loads_are_not_counted:
  "map_option (\<lambda>s. (gate s BOOTSTRAP, gate s RUNTIME,
                    map (\<lambda>entry. (fst (snd entry), snd (snd entry))) (moduleQueue s),
                    importCalls s, console s))
     (run_ops example_host example_program 0 runtime_batch initial)
     = Some (True, False, [(''bad'', RUNTIME), (''good'', RUNTIME)], [], [])
   \<and> map_option (\<lambda>s. (gate s RUNTIME, importCalls s, console s))
       (run_ops example_host example_program 0 (runtime_batch @ [WorldLoad Undefined]) initial)
     = Some (True, [''bad'', ''good''], [ImportFailed ''bad'' (Error ''load failed'')])"
  by (simp add: runtime_batch_def loader_eval)

section \<open>One-shot listeners\<close>





























subsection \<open>A listener registered with once fires once\<close>






section \<open>Properties of the dispatcher\<close>

subsection \<open>Removal with a listener argument that is not a function\<close>

lemma validateHandler_not_function:
  "\<forall>f. h \<noteq> Fn f \<Longrightarrow> validateHandler h = Inl (TypeError ''Handler must be a function'')"
  by (cases h) (simp_all add: validateHandler_def)

text \<open>
  C10, as the code has it. \<open>off\<close> looks the event up before it looks at the listener
  argument: for a string event name \<open>e\<close> and a listener argument that is neither
  undefined nor a function, \<open>off(e, h)\<close> throws the TypeError when \<open>e\<close> has a listener
  set in the registry, and returns without any effect when it has none.
\<close>

theorem off_checks_handler_after_lookup:
  assumes "h \<noteq> Undefined" and "\<forall>f. h \<noteq> Fn f"
  shows "off (Str e) h s =
    (case map_get (listenersMap s) e of
       None \<Rightarrow> (s, Inr ())
     | Some a \<Rightarrow> (s, Inl (TypeError ''Handler must be a function'')))"
  using assms(1) validateHandler_not_function[OF assms(2)]
  by (simp add: off_def validateEventName_def split: option.splits)

theorem off_checks_handler_after_lookup_witness:
  "snd (off (Str ''x'') (Num 42) (fst (on (Str ''x'') (Fn (Handler 0)) initial)))
     = Inl (TypeError ''Handler must be a function'')"
  using off_checks_handler_after_lookup[of "Num 42" "''x''" "fst (on (Str ''x'') (Fn (Handler 0)) initial)"]
  by (simp add: on_def validateEventName_def validateHandler_def initial_def set_add_def)

text \<open>
  The claim as written fails where the event has no listeners: \<open>off("x", 42)\<close> on the
  empty registry returns normally and throws nothing.
\<close>

theorem off_unknown_event_ignores_handler:
  "off (Str ''x'') (Num 42) initial = (initial, Inr ())"
  by (simp add: off_def validateEventName_def initial_def)

end
